theory Spec2Isabelle
  imports Main "HOL-Library.Word" "HOL-Library.Multiset" "HOL-Library.Monad_Syntax"
begin

section \<open>Instants and durations of Go's time package\<close>

text \<open>
  The package works on \<^verbatim>\<open>time.Time\<close> and \<^verbatim>\<open>time.Duration\<close>. A \<^verbatim>\<open>time.Time\<close> is an
  instant: Go keeps the seconds elapsed since 1 January of year 1, 00:00:00 UTC and the
  nanoseconds within the second. The model keeps the same instant as one integer, the
  nanoseconds elapsed since that zero instant. Locations do not take part in any
  comparison or arithmetic of the package (\<^verbatim>\<open>Timezone\<close> is UTC), so they are left out.
  Go's counter of seconds is an \<^verbatim>\<open>int64\<close>, wide enough for 292 billion years on both
  sides of year 1, and Go's arithmetic on it wraps around beyond. The model lets the
  instant range over all integers: it is the instant of Go as long as Go's seconds do
  not wrap, which is so for the years in \<open>yearInRange\<close> below, and it says nothing
  of what Go computes for years farther away.

  A \<^verbatim>\<open>time.Duration\<close> is an \<^verbatim>\<open>int64\<close> count of nanoseconds: a 64-bit word, read with
  \<open>sint\<close>, whose arithmetic wraps around.
\<close>

datatype Time = Time (since_zero: int)


definition zeroTime :: Time where
  "zeroTime = Time 0"

text \<open>Seconds from the zero instant to the Unix epoch (\<^verbatim>\<open>unixToInternal\<close> in Go).\<close>

definition unixToInternal :: int where
  "unixToInternal = 62135596800"

text \<open>
  \<^verbatim>\<open>t.UnixNano()\<close> is \<^verbatim>\<open>(t.sec() + internalToUnix)*1e9 + int64(t.nsec())\<close>, computed in
  \<^verbatim>\<open>int64\<close>: the nanoseconds since the Unix epoch, wrapped to 64 bits.
\<close>

definition UnixNano :: "Time \<Rightarrow> 64 word" where
  "UnixNano t = word_of_int (since_zero t - unixToInternal * 1000000000)"



text \<open>
  The instants whose distance to the Unix epoch fits an \<^verbatim>\<open>int64\<close> of nanoseconds
  (21 September 1677 to 11 April 2262): there \<^verbatim>\<open>UnixNano\<close> does not wrap.
\<close>

definition inUnixNanoRange :: "Time \<Rightarrow> bool" where
  "inUnixNanoRange t \<longleftrightarrow>
     - (2 ^ 63) \<le> since_zero t - unixToInternal * 1000000000 \<and>
     since_zero t - unixToInternal * 1000000000 < 2 ^ 63"

section \<open>The calendar of Go's time package\<close>

text \<open>
  Days are counted from 1 January of year 1, a Monday, in the proleptic Gregorian
  calendar. \<^verbatim>\<open>time.Date\<close> carries a month outside 1..12 into the year; the day, the clock
  and the nanoseconds simply add up, which is what Go's normalisation of each field into
  the next amounts to. \<^verbatim>\<open>Time.Date\<close> and \<^verbatim>\<open>Time.Clock\<close> split an instant by Go's cycles of
  400, 100, 4 and 1 years, \<^verbatim>\<open>Time.AddDate\<close> rebuilds the instant from the shifted fields,
  \<^verbatim>\<open>Time.Weekday\<close> counts from Sunday, and \<^verbatim>\<open>Time.ISOWeek\<close> is the year and the week of
  the Thursday of the instant's week. All of it is in UTC.

  Go computes the days and the seconds of an instant in 64-bit integers, counted from
  1 January of year -292277022399, and these wrap around for years farther than about
  292 billion years from year 1. The definitions below compute in unbounded integers.
  They give what Go gives for the years in \<open>yearInRange\<close>, 290 billion years on both sides
  of year 0, where nothing wraps. The lemmas below are facts of these definitions; what
  is claimed of the package for a year that may be any integer is claimed for the years
  in \<open>yearInRange\<close> only.
\<close>

definition yearInRange :: "int \<Rightarrow> bool" where
  "yearInRange year \<longleftrightarrow> - 290000000000 \<le> year \<and> year \<le> 290000000000"

definition nsPerDay :: int where
  "nsPerDay = 86400000000000"

definition isLeap :: "int \<Rightarrow> bool" where
  "isLeap year \<longleftrightarrow> year mod 4 = 0 \<and> (year mod 100 \<noteq> 0 \<or> year mod 400 = 0)"

definition daysBefore :: "int list" where
  "daysBefore = [0, 31, 59, 90, 120, 151, 181, 212, 243, 273, 304, 334, 365]"

definition daysSinceEpoch :: "int \<Rightarrow> int" where
  "daysSinceEpoch year =
     (let y = year - 1 in 365 * y + y div 4 - y div 100 + y div 400)"

definition Date :: "int \<Rightarrow> int \<Rightarrow> int \<Rightarrow> int \<Rightarrow> int \<Rightarrow> int \<Rightarrow> int \<Rightarrow> Time" where
  "Date year month day hour mins sec nsec =
     (let m = month - 1;
          year = year + m div 12;
          m = m mod 12;
          month = m + 1;
          d = daysSinceEpoch year;
          d = d + daysBefore ! nat (month - 1);
          d = (if isLeap year \<and> month \<ge> 3 then d + 1 else d);
          d = d + (day - 1)
      in Time ((((d * 24 + hour) * 60 + mins) * 60 + sec) * 1000000000 + nsec))"

definition absDays :: "Time \<Rightarrow> int" where
  "absDays t = since_zero t div nsPerDay"

definition absYearDay :: "int \<Rightarrow> int \<times> int" where
  "absYearDay d =
     (let n = d div 146097;
          y = 400 * n;
          d = d - 146097 * n;
          n = d div 36524;
          n = n - n div 4;
          y = y + 100 * n;
          d = d - 36524 * n;
          n = d div 1461;
          y = y + 4 * n;
          d = d - 1461 * n;
          n = d div 365;
          n = n - n div 4;
          y = y + n;
          d = d - 365 * n
      in (y + 1, d))"

definition monthOfDay :: "int \<Rightarrow> int \<times> int" where
  "monthOfDay day =
     (let month = day div 31;
          end = daysBefore ! nat (month + 1);
          (month, begin) = (if day \<ge> end then (month + 1, end)
                            else (month, daysBefore ! nat month));
          month = month + 1;
          day = day - begin + 1
      in (month, day))"

definition monthDay :: "int \<Rightarrow> int \<Rightarrow> int \<times> int" where
  "monthDay year yday =
     (let day = yday in
      if isLeap year \<and> day = 31 + 29 - 1 then (2, 29)
      else monthOfDay (if isLeap year \<and> day > 31 + 29 - 1 then day - 1 else day))"

definition Time_Date :: "Time \<Rightarrow> int \<times> int \<times> int" where
  "Time_Date t =
     (let (year, yday) = absYearDay (absDays t); (month, day) = monthDay year yday
      in (year, month, day))"

definition Time_Clock :: "Time \<Rightarrow> int \<times> int \<times> int" where
  "Time_Clock t =
     (let sec = (since_zero t div 1000000000) mod 86400
      in (sec div 3600, (sec mod 3600) div 60, sec mod 60))"

definition Time_Nanosecond :: "Time \<Rightarrow> int" where
  "Time_Nanosecond t = since_zero t mod 1000000000"

definition AddDate :: "Time \<Rightarrow> int \<Rightarrow> int \<Rightarrow> int \<Rightarrow> Time" where
  "AddDate t years months days =
     (let (year, month, day) = Time_Date t; (hour, mins, sec) = Time_Clock t
      in Date (year + years) (month + months) (day + days) hour mins sec (Time_Nanosecond t))"

definition Weekday :: "Time \<Rightarrow> int" where
  "Weekday t = (absDays t + 1) mod 7"

definition ISOWeek :: "Time \<Rightarrow> int \<times> int" where
  "ISOWeek t =
     (let d = 4 - Weekday t;
          d = (if d = 4 then - 3 else d);
          (year, yday) = absYearDay (absDays t + d)
      in (year, yday div 7 + 1))"

definition Monday :: int where
  "Monday = 1"

section \<open>Formatting and parsing\<close>

text \<open>
  \<^verbatim>\<open>fmt.Sprintf\<close> with the verbs \<^verbatim>\<open>%d\<close> and \<^verbatim>\<open>%02d\<close>, and \<^verbatim>\<open>time.Parse\<close> with the layout
  \<^verbatim>\<open>YMDHIS\<close> (\<^verbatim>\<open>2006-01-02 15:04:05\<close>): a year of exactly four digits, a month and a day of
  two digits, an hour of one or two digits, minutes and seconds of two digits, each in
  its range, with the layout's separators and nothing after. Go would also accept a
  fraction of a second after the seconds; the package never formats one, and it is left
  out. On failure \<^verbatim>\<open>time.Parse\<close> returns the zero instant and an error.
\<close>

definition digitChars :: string where
  "digitChars = ''0123456789''"

definition isDigit :: "string \<Rightarrow> nat \<Rightarrow> bool" where
  "isDigit s i \<longleftrightarrow> i < length s \<and> s ! i \<in> set digitChars"

fun digitValue :: "char \<Rightarrow> int" where
  "digitValue c = int (length (takeWhile (\<lambda>d. d \<noteq> c) digitChars))"

function decimal :: "nat \<Rightarrow> string" where
  "decimal n = (if n < 10 then [digitChars ! n] else decimal (n div 10) @ [digitChars ! (n mod 10)])"
  by pat_completeness auto
termination
  by (relation "measure id") auto

declare decimal.simps [simp del]

definition fmt_d :: "int \<Rightarrow> string" where
  "fmt_d i = (if i < 0 then CHR ''-'' # decimal (nat (- i)) else decimal (nat i))"

definition fmt_02d :: "int \<Rightarrow> string" where
  "fmt_02d i = (let s = fmt_d i in if length s < 2 then CHR ''0'' # s else s)"

definition atoi :: "string \<Rightarrow> int option" where
  "atoi s =
     (if s \<noteq> [] \<and> (\<forall>c \<in> set s. c \<in> set digitChars)
      then Some (foldl (\<lambda>x c. x * 10 + digitValue c) 0 s) else None)"

definition getnum :: "string \<Rightarrow> bool \<Rightarrow> (int \<times> string) option" where
  "getnum s fixed =
     (if \<not> isDigit s 0 then None
      else if \<not> isDigit s 1 then
        (if fixed then None else Some (digitValue (s ! 0), drop 1 s))
      else Some (digitValue (s ! 0) * 10 + digitValue (s ! 1), drop 2 s))"

definition skipChar :: "char \<Rightarrow> string \<Rightarrow> string option" where
  "skipChar c value = (if value = [] \<or> hd value \<noteq> c then None else Some (tl value))"

definition skipSpace :: "string \<Rightarrow> string option" where
  "skipSpace value =
     (if value \<noteq> [] \<and> hd value \<noteq> CHR '' '' then None
      else Some (dropWhile (\<lambda>c. c = CHR '' '') value))"

definition daysIn :: "int \<Rightarrow> int \<Rightarrow> int" where
  "daysIn month year =
     (if month = 2 \<and> isLeap year then 29
      else daysBefore ! nat month - daysBefore ! nat (month - 1))"

definition parseYMDHIS :: "string \<Rightarrow> Time option" where
  "parseYMDHIS value =
     (if length value < 4 \<or> \<not> isDigit value 0 then None
      else do {
        year \<leftarrow> atoi (take 4 value);
        value \<leftarrow> skipChar CHR ''-'' (drop 4 value);
        (month, value) \<leftarrow> getnum value True;
        if month \<le> 0 \<or> 12 < month then None
        else do {
          value \<leftarrow> skipChar CHR ''-'' value;
          (day, value) \<leftarrow> getnum value True;
          value \<leftarrow> skipSpace value;
          (hour, value) \<leftarrow> getnum value False;
          if 24 \<le> hour then None
          else do {
            value \<leftarrow> skipChar CHR '':'' value;
            (mins, value) \<leftarrow> getnum value True;
            if 60 \<le> mins then None
            else do {
              value \<leftarrow> skipChar CHR '':'' value;
              (sec, value) \<leftarrow> getnum value True;
              if 60 \<le> sec then None
              else if value \<noteq> [] then None
              else if day < 1 \<or> day > daysIn month year then None
              else Some (Date year month day hour mins sec 0)
            }
          }
        }
      })"

definition Parse_YMDHIS :: "string \<Rightarrow> Time \<times> bool" where
  "Parse_YMDHIS value =
     (case parseYMDHIS value of None \<Rightarrow> (zeroTime, True) | Some t \<Rightarrow> (t, False))"

definition Sprintf_date :: "int \<Rightarrow> int \<Rightarrow> string" where
  "Sprintf_date year month = fmt_d year @ ''-'' @ fmt_02d month @ ''-01 00:00:00''"

definition Sprintf_year :: "int \<Rightarrow> string" where
  "Sprintf_year year = fmt_d year @ ''-01-01 00:00:00''"

section \<open>Periods (period.go)\<close>

record Period =
  Start :: Time
  End :: Time

text \<open>
  Modelled from the spec: the three error values \<^verbatim>\<open>OutOfRangeError\<close>,
  \<^verbatim>\<open>ShouldOverlapsError\<close> and \<^verbatim>\<open>BothShouldNotAbuts\<close> are declared in a file that is not
  part of the sources at hand. The spec calls them OutOfRangeError, MustOverlapError and
  AbutsError; they are three distinct values here. Functions return a list of errors
  (\<^verbatim>\<open>[]error\<close>), \<^verbatim>\<open>nil\<close> being the empty list.
\<close>

datatype error = OutOfRangeError | ShouldOverlapsError | BothShouldNotAbuts

definition compareDate :: "Time \<Rightarrow> Time \<Rightarrow> int" where
  "compareDate date1 date2 =
     (if sint (UnixNano date1) > sint (UnixNano date2) then 1
      else if sint (UnixNano date1) < sint (UnixNano date2) then - 1
      else 0)"

definition validateRange :: "int \<Rightarrow> int \<Rightarrow> int \<Rightarrow> int \<times> error list" where
  "validateRange val lo hi =
     (if val < lo \<or> val > hi then (val, [OutOfRangeError]) else (val, []))"

text \<open>
  \<^verbatim>\<open>StartWeek\<close> and \<^verbatim>\<open>Timezone\<close> are package variables that the package only reads; they
  keep their initial values, Monday and UTC.
\<close>

definition StartWeek :: int where
  "StartWeek = Monday"

text \<open>The zero value of \<^verbatim>\<open>Period\<close>, which a constructor returns beside an error.\<close>

definition zeroPeriod :: Period where
  "zeroPeriod = \<lparr>Start = zeroTime, End = zeroTime\<rparr>"

text \<open>
  The four loops of \<^verbatim>\<open>CreateFromWeek\<close>. After every change of \<^verbatim>\<open>p.Start\<close> the code
  assigns \<^verbatim>\<open>isoYear, isoWeek = p.Start.ISOWeek()\<close>, so each loop condition reads the ISO
  week of the current start. A loop that does not end has no result: \<open>None\<close>.
\<close>

partial_function (option) backToMonday :: "Time \<Rightarrow> Time option" where
  "backToMonday start =
     (if Weekday start \<noteq> Monday then backToMonday (AddDate start 0 0 (- 1)) else Some start)"

partial_function (option) toFirstWeek :: "int \<Rightarrow> Time \<Rightarrow> Time option" where
  "toFirstWeek year start =
     (if fst (ISOWeek start) < year then toFirstWeek year (AddDate start 0 0 1) else Some start)"

partial_function (option) toGivenWeek :: "int \<Rightarrow> Time \<Rightarrow> Time option" where
  "toGivenWeek week start =
     (if snd (ISOWeek start) < week then toGivenWeek week (AddDate start 0 0 1) else Some start)"

partial_function (option) toStartWeek :: "Time \<Rightarrow> Time option" where
  "toStartWeek start =
     (if Weekday start \<noteq> StartWeek
      then toStartWeek (AddDate start 0 0 (StartWeek - Monday)) else Some start)"

declare backToMonday.simps [code]
declare toFirstWeek.simps [code]
declare toGivenWeek.simps [code]
declare toStartWeek.simps [code]

definition CreateFromWeek :: "int \<Rightarrow> int \<Rightarrow> (Period \<times> error list) option" where
  "CreateFromWeek year week =
     (let (week, err) = validateRange week 1 53 in
      if err \<noteq> [] then Some (zeroPeriod, err)
      else do {
        start \<leftarrow> backToMonday (Date year 0 0 0 0 0 0);
        start \<leftarrow> toFirstWeek year start;
        start \<leftarrow> toGivenWeek week start;
        start \<leftarrow> toStartWeek start;
        Some (\<lparr>Start = start, End = AddDate start 0 0 7\<rparr>, [])
      })"

definition CreateFromMonth :: "int \<Rightarrow> int \<Rightarrow> Period \<times> error list" where
  "CreateFromMonth year month =
     (let (month, err) = validateRange month 1 12 in
      if err \<noteq> [] then (zeroPeriod, err)
      else
        let start = fst (Parse_YMDHIS (Sprintf_date year month))
        in (\<lparr>Start = start, End = AddDate start 0 1 0\<rparr>, []))"

definition CreateFromQuarter :: "int \<Rightarrow> int \<Rightarrow> Period \<times> error list" where
  "CreateFromQuarter year quarter =
     (let (quarter, err) = validateRange quarter 1 4 in
      if err \<noteq> [] then (zeroPeriod, err)
      else
        let start = fst (Parse_YMDHIS (Sprintf_date year (((quarter - 1) * 3) + 1)))
        in (\<lparr>Start = start, End = AddDate start 0 3 0\<rparr>, []))"

definition CreateFromSemester :: "int \<Rightarrow> int \<Rightarrow> Period \<times> error list" where
  "CreateFromSemester year semester =
     (let (semester, err) = validateRange semester 1 2 in
      if err \<noteq> [] then (zeroPeriod, err)
      else
        let start = fst (Parse_YMDHIS (Sprintf_date year (((semester - 1) * 6) + 1)))
        in (\<lparr>Start = start, End = AddDate start 0 6 0\<rparr>, []))"

definition CreateFromYear :: "int \<Rightarrow> Period \<times> error list" where
  "CreateFromYear year =
     (let start = fst (Parse_YMDHIS (Sprintf_year year))
      in (\<lparr>Start = start, End = AddDate start 1 0 0\<rparr>, []))"






















section \<open>The other copy of the package\<close>













section \<open>Earlier and later instants\<close>





section \<open>The comparison of instants\<close>

lemma compareDate_cases: "compareDate a b = - 1 \<or> compareDate a b = 0 \<or> compareDate a b = 1"
  by (simp add: compareDate_def)











lemma sint_word_of_int_64:
  "- (2 ^ 63) \<le> k \<Longrightarrow> k < 2 ^ 63 \<Longrightarrow> sint (word_of_int k :: 64 word) = k"
  by (simp add: sint_sbintrunc' signed_take_bit_int_eq_self)

lemma sint_UnixNano:
  "inUnixNanoRange t \<Longrightarrow> sint (UnixNano t) = since_zero t - unixToInternal * 1000000000"
  unfolding UnixNano_def inUnixNanoRange_def
  by (rule sint_word_of_int_64) simp_all

lemma UnixNano_sless_exact:
  "inUnixNanoRange a \<Longrightarrow> inUnixNanoRange b \<Longrightarrow>
   UnixNano a <s UnixNano b \<longleftrightarrow> since_zero a < since_zero b"
  by (simp add: word_sless_alt sint_UnixNano)




















section \<open>Merging, and the length of a period\<close>

























section \<open>Years, days and ISO weeks\<close>

lemma div_step:
  fixes y n :: int
  assumes "0 < n"
  shows "y div n = (y - 1) div n + (if y mod n = 0 then 1 else 0)"
proof (cases "y mod n = 0")
  case True
  have "y - 1 = n * (y div n - 1) + (n - 1)"
    using True mult_div_mod_eq [of n y] by (simp add: algebra_simps)
  moreover have "0 \<le> n - 1" "n - 1 < n" using assms by simp_all
  ultimately have "(y - 1) div n = y div n - 1"
    by (rule int_div_pos_eq)
  with True show ?thesis by simp
next
  case False
  have "0 \<le> y mod n" "y mod n < n" using assms by simp_all
  with False have r: "0 \<le> y mod n - 1" "y mod n - 1 < n" by linarith+
  have "y - 1 = n * (y div n) + (y mod n - 1)" by simp
  from this r have "(y - 1) div n = y div n"
    by (rule int_div_pos_eq)
  with False show ?thesis by simp
qed

lemma mod_400_100: "(y::int) mod 400 = 0 \<Longrightarrow> y mod 100 = 0"
proof -
  assume "y mod 400 = 0"
  then have "400 dvd y" by (simp add: dvd_eq_mod_eq_0)
  moreover have "(100::int) dvd 400" by simp
  ultimately have "100 dvd y" by (rule dvd_trans [rotated])
  then show ?thesis by simp
qed

lemma mod_100_4: "(y::int) mod 100 = 0 \<Longrightarrow> y mod 4 = 0"
proof -
  assume "y mod 100 = 0"
  then have "100 dvd y" by (simp add: dvd_eq_mod_eq_0)
  moreover have "(4::int) dvd 100" by simp
  ultimately have "4 dvd y" by (rule dvd_trans [rotated])
  then show ?thesis by simp
qed

lemma year_step_aux:
  fixes A B :: int
  assumes "A = 365 * y + q4 - q100 + q400" "B = 365 * (y - 1) + p4 - p100 + p400"
    "q4 = p4 + i4" "q100 = p100 + i100" "q400 = p400 + i400"
  shows "A = B + 365 + i4 - i100 + i400"
  using assms by simp

lemma daysSinceEpoch_Suc:
  "daysSinceEpoch (y + 1) = daysSinceEpoch y + (if isLeap y then 366 else 365)"
proof -
  have d4: "y div 4 = (y - 1) div 4 + (if y mod 4 = 0 then 1 else 0)" by (rule div_step) simp
  have d100: "y div 100 = (y - 1) div 100 + (if y mod 100 = 0 then 1 else 0)"
    by (rule div_step) simp
  have d400: "y div 400 = (y - 1) div 400 + (if y mod 400 = 0 then 1 else 0)"
    by (rule div_step) simp
  have e: "daysSinceEpoch (y + 1) =
      daysSinceEpoch y + 365 + (if y mod 4 = 0 then 1 else 0) - (if y mod 100 = 0 then 1 else 0)
        + (if y mod 400 = 0 then 1 else 0)"
  proof -
    have "daysSinceEpoch (y + 1) = 365 * y + y div 4 - y div 100 + y div 400"
      by (simp add: daysSinceEpoch_def Let_def)
    moreover have "daysSinceEpoch y =
        365 * (y - 1) + (y - 1) div 4 - (y - 1) div 100 + (y - 1) div 400"
      by (simp add: daysSinceEpoch_def Let_def)
    ultimately show ?thesis using d4 d100 d400 by (rule year_step_aux)
  qed
  show ?thesis
  proof (cases "y mod 400 = 0")
    case True
    with mod_400_100 [of y] mod_100_4 [of y] e show ?thesis by (simp add: isLeap_def)
  next
    case n400: False
    show ?thesis
    proof (cases "y mod 100 = 0")
      case True
      with n400 mod_100_4 [of y] e show ?thesis by (simp add: isLeap_def)
    next
      case False
      with n400 e show ?thesis by (simp add: isLeap_def)
    qed
  qed
qed

lemma div_bounds:
  fixes x n :: int
  assumes "0 < n"
  shows "n * (x div n) \<le> x" "x < n * (x div n) + n"
proof -
  have "n * (x div n) + x mod n = x" by simp
  moreover have "0 \<le> x mod n" "x mod n < n" using assms by simp_all
  ultimately show "n * (x div n) \<le> x" "x < n * (x div n) + n" by linarith+
qed

lemma clip_cycle:
  fixes x n q0 q :: int
  assumes n: "0 < n" and x: "0 \<le> x" "x < 4 * n + 1"
    and q0: "q0 = x div n" and q: "q = q0 - q0 div 4"
  shows "0 \<le> q \<and> q \<le> 3 \<and> 0 \<le> x - n * q \<and> x - n * q \<le> n \<and> (x - n * q = n \<longrightarrow> q = 3)"
proof -
  have lo: "n * q0 \<le> x" and hi: "x < n * q0 + n"
    unfolding q0 using div_bounds [OF n, of x] by simp_all
  have "0 \<le> q0" unfolding q0 using n x by (simp add: pos_imp_zdiv_nonneg_iff)
  moreover have "q0 \<le> 4"
  proof (rule ccontr)
    assume "\<not> q0 \<le> 4"
    then have "5 \<le> q0" by simp
    then have "n * 5 \<le> n * q0" using n by (intro mult_left_mono) simp_all
    with lo x n show False by linarith
  qed
  ultimately consider "q0 = 0" | "q0 = 1" | "q0 = 2" | "q0 = 3" | "q0 = 4" by linarith
  then show ?thesis
  proof cases
    case 1 with q lo hi n show ?thesis by simp
  next
    case 2 with q lo hi n show ?thesis by simp
  next
    case 3 with q lo hi n show ?thesis by simp
  next
    case 4 with q lo hi n show ?thesis by simp
  next
    case 5 with q lo hi n x show ?thesis by simp
  qed
qed

lemma absYearDay_split:
  fixes d :: int
  obtains a b c e r where
    "absYearDay d = (400 * a + 100 * b + 4 * c + e + 1, r)"
    "d = 146097 * a + 36524 * b + 1461 * c + 365 * e + r"
    "0 \<le> b" "b \<le> 3" "0 \<le> c" "c \<le> 24" "0 \<le> e" "e \<le> 3" "0 \<le> r" "r \<le> 365"
    "r = 365 \<Longrightarrow> e = 3" "r = 365 \<Longrightarrow> c = 24 \<Longrightarrow> b = 3"
proof -
  define a where "a = d div 146097"
  define d1 where "d1 = d - 146097 * a"
  define b0 where "b0 = d1 div 36524"
  define b where "b = b0 - b0 div 4"
  define d2 where "d2 = d1 - 36524 * b"
  define c where "c = d2 div 1461"
  define d3 where "d3 = d2 - 1461 * c"
  define e0 where "e0 = d3 div 365"
  define e where "e = e0 - e0 div 4"
  define r where "r = d3 - 365 * e"
  have d1: "0 \<le> d1" "d1 < 4 * 36524 + 1"
    unfolding d1_def a_def using div_bounds [of 146097 d] by simp_all
  from clip_cycle [OF _ d1 b0_def b_def]
  have b: "0 \<le> b" "b \<le> 3" "0 \<le> d2" "d2 \<le> 36524" "d2 = 36524 \<Longrightarrow> b = 3"
    by (simp_all add: d2_def)
  have c: "0 \<le> c" "c \<le> 24"
  proof -
    show "0 \<le> c" unfolding c_def using b(3) by (simp add: pos_imp_zdiv_nonneg_iff)
    have "1461 * c \<le> d2" unfolding c_def using div_bounds [of 1461 d2] by simp
    with b(4) show "c \<le> 24" by simp
  qed
  have d3: "0 \<le> d3" "d3 < 4 * 365 + 1"
    unfolding d3_def c_def using div_bounds [of 1461 d2] by simp_all
  from clip_cycle [OF _ d3 e0_def e_def]
  have e: "0 \<le> e" "e \<le> 3" "0 \<le> r" "r \<le> 365" "r = 365 \<Longrightarrow> e = 3"
    by (simp_all add: r_def)
  have y: "absYearDay d = (400 * a + 100 * b + 4 * c + e + 1, r)"
    by (simp add: absYearDay_def Let_def r_def e_def e0_def d3_def c_def d2_def b_def b0_def
        d1_def a_def)
  have s: "d = 146097 * a + 36524 * b + 1461 * c + 365 * e + r"
    by (simp add: r_def d3_def d2_def d1_def)
  have l: "b = 3" if "r = 365" "c = 24"
  proof -
    from that e(5) have "d3 = 1460" by (simp add: r_def)
    with that have "d2 = 36524" by (simp add: d3_def)
    then show ?thesis by (rule b(5))
  qed
  from y s b(1,2) c e l show ?thesis by (rule that)
qed

lemma daysSinceEpoch_cycles:
  assumes "0 \<le> b" "b \<le> 3" "0 \<le> c" "c \<le> 24" "0 \<le> e" "e \<le> 3"
  shows "daysSinceEpoch (400 * a + 100 * b + 4 * c + e + 1) =
    146097 * a + 36524 * b + 1461 * c + 365 * e"
proof -
  define z where "z = 400 * a + 100 * b + 4 * c + e"
  have "z = 4 * (100 * a + 25 * b + c) + e" by (simp add: z_def)
  from this assms(5) have q4: "z div 4 = 100 * a + 25 * b + c"
    by (rule int_div_pos_eq) (use assms in linarith)
  have "z = 100 * (4 * a + b) + (4 * c + e)" by (simp add: z_def)
  then have q100: "z div 100 = 4 * a + b"
    by (rule int_div_pos_eq) (use assms in linarith)+
  have "z = 400 * a + (100 * b + 4 * c + e)" by (simp add: z_def)
  then have q400: "z div 400 = a"
    by (rule int_div_pos_eq) (use assms in linarith)+
  have "daysSinceEpoch (z + 1) = 365 * z + z div 4 - z div 100 + z div 400"
    by (simp add: daysSinceEpoch_def Let_def)
  also have "\<dots> = 146097 * a + 36524 * b + 1461 * c + 365 * e"
    unfolding q4 q100 q400 by (simp add: z_def)
  finally show ?thesis by (simp add: z_def)
qed

lemma isLeap_cycles:
  assumes "0 \<le> b" "b \<le> 3" "0 \<le> c" "c \<le> 24" "c = 24 \<Longrightarrow> b = 3"
  shows "isLeap (400 * a + 100 * b + 4 * c + 3 + 1)"
proof -
  define y where "y = 400 * a + 100 * b + 4 * c + 3 + 1"
  have "y = 4 * (100 * a + 25 * b + c + 1) + 0" by (simp add: y_def)
  then have m4: "y mod 4 = 0" by (rule int_mod_pos_eq) simp_all
  have "y mod 100 \<noteq> 0 \<or> y mod 400 = 0"
  proof (cases "c = 24")
    case True
    with assms(5) have "y = 400 * (a + 1) + 0" by (simp add: y_def)
    then have "y mod 400 = 0" by (rule int_mod_pos_eq) simp_all
    then show ?thesis ..
  next
    case False
    have "y = 100 * (4 * a + b) + (4 * c + 4)" by (simp add: y_def)
    then have "y mod 100 = 4 * c + 4"
      by (rule int_mod_pos_eq) (use assms False in linarith)+
    with assms(3) have "y mod 100 \<noteq> 0" by simp
    then show ?thesis ..
  qed
  with m4 show ?thesis unfolding isLeap_def y_def by simp
qed

lemma absYearDay_correct:
  assumes "absYearDay d = (y, r)"
  shows "daysSinceEpoch y + r = d" "0 \<le> r" "r < (if isLeap y then 366 else 365)"
proof -
  obtain a b c e r' where h:
    "absYearDay d = (400 * a + 100 * b + 4 * c + e + 1, r')"
    "d = 146097 * a + 36524 * b + 1461 * c + 365 * e + r'"
    "0 \<le> b" "b \<le> 3" "0 \<le> c" "c \<le> 24" "0 \<le> e" "e \<le> 3" "0 \<le> r'" "r' \<le> 365"
    "r' = 365 \<Longrightarrow> e = 3" "r' = 365 \<Longrightarrow> c = 24 \<Longrightarrow> b = 3"
    by (rule absYearDay_split [of d]) blast
  from h(1) assms have y: "y = 400 * a + 100 * b + 4 * c + e + 1" and r: "r = r'" by simp_all
  from daysSinceEpoch_cycles [OF h(3-8), of a] h(2)
  show "daysSinceEpoch y + r = d" by (simp add: y r)
  from h(9) show "0 \<le> r" by (simp add: r)
  show "r < (if isLeap y then 366 else 365)"
  proof (cases "r' = 365")
    case True
    with h(11) have e: "e = 3" by simp
    from True h(12) have "c = 24 \<Longrightarrow> b = 3" by simp
    from isLeap_cycles [OF h(3-6) this, of a] have "isLeap y" by (simp add: y e)
    with True show ?thesis by (simp add: r)
  next
    case False
    with h(10) show ?thesis by (simp add: r)
  qed
qed

lemma daysSinceEpoch_add:
  "daysSinceEpoch y + 365 * int n \<le> daysSinceEpoch (y + int n)"
proof (induction n)
  case 0
  show ?case by simp
next
  case (Suc n)
  have "y + int n + 1 = y + int (Suc n)" by simp
  with daysSinceEpoch_Suc [of "y + int n"]
  have "daysSinceEpoch (y + int n) + 365 \<le> daysSinceEpoch (y + int (Suc n))"
    by (simp split: if_splits)
  moreover have "365 * int (Suc n) = 365 * int n + 365" by simp
  ultimately show ?case using Suc by linarith
qed

lemma daysSinceEpoch_mono: "y \<le> y' \<Longrightarrow> daysSinceEpoch y \<le> daysSinceEpoch y'"
  using daysSinceEpoch_add [of y "nat (y' - y)"] by simp

lemma daysSinceEpoch_next_le:
  "y < y' \<Longrightarrow> daysSinceEpoch (y + 1) \<le> daysSinceEpoch y'"
  by (rule daysSinceEpoch_mono) simp

lemma absYearDay_year_ge:
  assumes "absYearDay d = (Y, r)"
  shows "y \<le> Y \<longleftrightarrow> daysSinceEpoch y \<le> d"
proof
  assume "y \<le> Y"
  then have "daysSinceEpoch y \<le> daysSinceEpoch Y" by (rule daysSinceEpoch_mono)
  with absYearDay_correct(1,2) [OF assms] show "daysSinceEpoch y \<le> d" by linarith
next
  assume l: "daysSinceEpoch y \<le> d"
  show "y \<le> Y"
  proof (rule ccontr)
    assume "\<not> y \<le> Y"
    then have "daysSinceEpoch (Y + 1) \<le> daysSinceEpoch y"
      by (intro daysSinceEpoch_next_le) simp
    moreover have "d < daysSinceEpoch (Y + 1)"
      using absYearDay_correct(1,3) [OF assms] by (simp add: daysSinceEpoch_Suc split: if_splits)
    ultimately show False using l by linarith
  qed
qed

lemma daysBefore_nth:
  "daysBefore ! 0 = 0" "daysBefore ! 1 = 31" "daysBefore ! 2 = 59" "daysBefore ! 3 = 90"
  "daysBefore ! 4 = 120" "daysBefore ! 5 = 151" "daysBefore ! 6 = 181" "daysBefore ! 7 = 212"
  "daysBefore ! 8 = 243" "daysBefore ! 9 = 273" "daysBefore ! 10 = 304" "daysBefore ! 11 = 334"
  "daysBefore ! 12 = 365"
  by (simp_all add: daysBefore_def)

lemma monthOfDay_at:
  assumes "31 * k \<le> d" "d < 31 * k + 31" "0 \<le> k"
  shows "monthOfDay d =
    (if d \<ge> daysBefore ! nat (k + 1) then (k + 2, d - daysBefore ! nat (k + 1) + 1)
     else (k + 1, d - daysBefore ! nat k + 1))"
proof -
  have "d = 31 * k + (d - 31 * k)" by simp
  then have "d div 31 = k" by (rule int_div_pos_eq) (use assms in linarith)+
  then show ?thesis by (simp add: monthOfDay_def Let_def)
qed

lemma monthOfDay_correct:
  assumes "0 \<le> d" "d < 365" "monthOfDay d = (m, dd)"
  shows "1 \<le> m \<and> m \<le> 12 \<and> daysBefore ! nat (m - 1) + (dd - 1) = d \<and> (3 \<le> m \<longleftrightarrow> 59 \<le> d)"
proof -
  from assms(1,2) consider
    "31 * 0 \<le> d \<and> d < 31 * 0 + 31" | "31 * 1 \<le> d \<and> d < 31 * 1 + 31" |
    "31 * 2 \<le> d \<and> d < 31 * 2 + 31" | "31 * 3 \<le> d \<and> d < 31 * 3 + 31" |
    "31 * 4 \<le> d \<and> d < 31 * 4 + 31" | "31 * 5 \<le> d \<and> d < 31 * 5 + 31" |
    "31 * 6 \<le> d \<and> d < 31 * 6 + 31" | "31 * 7 \<le> d \<and> d < 31 * 7 + 31" |
    "31 * 8 \<le> d \<and> d < 31 * 8 + 31" | "31 * 9 \<le> d \<and> d < 31 * 9 + 31" |
    "31 * 10 \<le> d \<and> d < 31 * 10 + 31" | "31 * 11 \<le> d \<and> d < 31 * 11 + 31"
    by linarith
  then show ?thesis
  proof cases
    case 1 with monthOfDay_at [of 0 d] assms(3) show ?thesis
      by (auto simp: daysBefore_nth split: if_splits)
  next
    case 2 with monthOfDay_at [of 1 d] assms(3) show ?thesis
      by (auto simp: daysBefore_nth split: if_splits)
  next
    case 3 with monthOfDay_at [of 2 d] assms(3) show ?thesis
      by (auto simp: daysBefore_nth split: if_splits)
  next
    case 4 with monthOfDay_at [of 3 d] assms(3) show ?thesis
      by (auto simp: daysBefore_nth split: if_splits)
  next
    case 5 with monthOfDay_at [of 4 d] assms(3) show ?thesis
      by (auto simp: daysBefore_nth split: if_splits)
  next
    case 6 with monthOfDay_at [of 5 d] assms(3) show ?thesis
      by (auto simp: daysBefore_nth split: if_splits)
  next
    case 7 with monthOfDay_at [of 6 d] assms(3) show ?thesis
      by (auto simp: daysBefore_nth split: if_splits)
  next
    case 8 with monthOfDay_at [of 7 d] assms(3) show ?thesis
      by (auto simp: daysBefore_nth split: if_splits)
  next
    case 9 with monthOfDay_at [of 8 d] assms(3) show ?thesis
      by (auto simp: daysBefore_nth split: if_splits)
  next
    case 10 with monthOfDay_at [of 9 d] assms(3) show ?thesis
      by (auto simp: daysBefore_nth split: if_splits)
  next
    case 11 with monthOfDay_at [of 10 d] assms(3) show ?thesis
      by (auto simp: daysBefore_nth split: if_splits)
  next
    case 12 with monthOfDay_at [of 11 d] assms(2,3) show ?thesis
      by (auto simp: daysBefore_nth split: if_splits)
  qed
qed

lemma monthDay_correct:
  assumes "0 \<le> r" "r < (if isLeap y then 366 else 365)" "monthDay y r = (m, dd)"
  shows "1 \<le> m \<and> m \<le> 12 \<and>
    daysBefore ! nat (m - 1) + (if isLeap y \<and> 3 \<le> m then 1 else 0) + (dd - 1) = r"
proof (cases "isLeap y")
  case False
  with assms have "0 \<le> r" "r < 365" "monthOfDay r = (m, dd)"
    by (simp_all add: monthDay_def)
  from monthOfDay_correct [OF this] False show ?thesis by simp
next
  case True
  consider "r = 59" | "r < 59" | "59 < r" by linarith
  then show ?thesis
  proof cases
    case 1
    with True assms(3) show ?thesis by (auto simp: monthDay_def daysBefore_def)
  next
    case 2
    with True assms have "0 \<le> r" "r < 365" "monthOfDay r = (m, dd)"
      by (simp_all add: monthDay_def)
    from monthOfDay_correct [OF this] 2 show ?thesis by simp
  next
    case 3
    with True assms have "0 \<le> r - 1" "r - 1 < 365" "monthOfDay (r - 1) = (m, dd)"
      by (simp_all add: monthDay_def)
    from monthOfDay_correct [OF this] 3 True show ?thesis by simp
  qed
qed

lemma Date_days:
  assumes "1 \<le> m" "m \<le> 12"
  shows "Date y m dd h mi s ns =
    Time (((((daysSinceEpoch y + daysBefore ! nat (m - 1) +
      (if isLeap y \<and> 3 \<le> m then 1 else 0) + (dd - 1)) * 24 + h) * 60 + mi) * 60 + s)
      * 1000000000 + ns)"
proof -
  from assms have "(m - 1) div 12 = 0" "(m - 1) mod 12 = m - 1" by simp_all
  then show ?thesis by (simp add: Date_def Let_def)
qed

lemma Time_Date_correct:
  assumes "Time_Date t = (y, m, dd)"
  shows "1 \<le> m \<and> m \<le> 12 \<and>
    daysSinceEpoch y + daysBefore ! nat (m - 1) + (if isLeap y \<and> 3 \<le> m then 1 else 0) + (dd - 1)
      = absDays t"
proof -
  obtain Y r where yr: "absYearDay (absDays t) = (Y, r)" by (cases "absYearDay (absDays t)")
  obtain M D where md: "monthDay Y r = (M, D)" by (cases "monthDay Y r")
  from assms yr md have e: "y = Y" "m = M" "dd = D" by (simp_all add: Time_Date_def)
  from absYearDay_correct [OF yr] monthDay_correct [OF _ _ md]
  show ?thesis unfolding e by simp
qed

lemma clock_parts:
  fixes x :: int
  defines "sec \<equiv> (x div 1000000000) mod 86400"
  shows "((((x div 86400000000000) * 24 + sec div 3600) * 60 + (sec mod 3600) div 60) * 60
      + sec mod 60) * 1000000000 + x mod 1000000000 = x"
proof -
  define S where "S = x div 1000000000"
  have day: "x div 86400000000000 = S div 86400"
    unfolding S_def using zdiv_zmult2_eq [of 86400 x 1000000000] by simp
  have m60: "sec mod 60 = (sec mod 3600) mod 60"
    by (simp add: mod_mod_cancel)
  have a: "3600 * (sec div 3600) + sec mod 3600 = sec" by simp
  have b: "60 * ((sec mod 3600) div 60) + (sec mod 3600) mod 60 = sec mod 3600" by simp
  have c: "86400 * (S div 86400) + sec = S" unfolding sec_def S_def by simp
  have d: "1000000000 * S + x mod 1000000000 = x" unfolding S_def by simp
  define A where "A = S div 86400"
  define H where "H = sec div 3600"
  define R where "R = sec mod 3600"
  define M where "M = R div 60"
  define Q where "Q = R mod 60"
  define N where "N = x mod 1000000000"
  from a b c d have "3600 * H + R = sec" "60 * M + Q = R" "86400 * A + sec = S"
    "1000000000 * S + N = x"
    by (simp_all add: A_def H_def R_def M_def Q_def N_def)
  then have "(((A * 24 + H) * 60 + M) * 60 + Q) * 1000000000 + N = x" by simp
  then show ?thesis
    unfolding day m60 by (simp only: A_def H_def R_def M_def Q_def N_def)
qed

lemma Time_Clock_correct:
  assumes "Time_Clock t = (h, mi, s)"
  shows "(((absDays t * 24 + h) * 60 + mi) * 60 + s) * 1000000000 + Time_Nanosecond t
    = since_zero t"
  using assms clock_parts [of "since_zero t"]
  by (simp add: Time_Clock_def Let_def absDays_def nsPerDay_def Time_Nanosecond_def)

lemma AddDate_days: "AddDate t 0 0 k = Time (since_zero t + k * nsPerDay)"
proof -
  obtain y m dd where d: "Time_Date t = (y, m, dd)" by (cases "Time_Date t")
  obtain h mi s where c: "Time_Clock t = (h, mi, s)" by (cases "Time_Clock t")
  from Time_Date_correct [OF d] have m: "1 \<le> m" "m \<le> 12" and
    e: "daysSinceEpoch y + daysBefore ! nat (m - 1) + (if isLeap y \<and> 3 \<le> m then 1 else 0)
      + (dd - 1) = absDays t" by simp_all
  have "AddDate t 0 0 k = Date y m (dd + k) h mi s (Time_Nanosecond t)"
    by (simp add: AddDate_def d c)
  also have "\<dots> = Time ((((( absDays t + k) * 24 + h) * 60 + mi) * 60 + s)
      * 1000000000 + Time_Nanosecond t)"
    unfolding Date_days [OF m] using e by (simp add: algebra_simps)
  also have "\<dots> = Time (since_zero t + k * nsPerDay)"
    using Time_Clock_correct [OF c] by (simp add: nsPerDay_def algebra_simps)
  finally show ?thesis .
qed

text \<open>Midnight of a day, and the day on which ISO week 1 of a year begins.\<close>

definition midnight :: "int \<Rightarrow> Time" where
  "midnight d = Time (d * nsPerDay)"

definition firstMonday :: "int \<Rightarrow> int" where
  "firstMonday year = (let j = daysSinceEpoch year + 3 in j - j mod 7)"

lemma absDays_midnight [simp]: "absDays (midnight d) = d"
  by (simp add: absDays_def midnight_def nsPerDay_def)

lemma AddDate_midnight [simp]: "AddDate (midnight d) 0 0 k = midnight (d + k)"
  by (simp add: AddDate_days midnight_def algebra_simps)

lemma Weekday_midnight: "Weekday (midnight d) = Monday \<longleftrightarrow> d mod 7 = 0"
  unfolding Weekday_def Monday_def absDays_midnight by presburger

lemma thursday_offset:
  fixes d :: int
  shows "(let x = 4 - (d + 1) mod 7 in if x = 4 then - 3 else x) = 3 - d mod 7"
  unfolding Let_def by presburger

lemma ISOWeek_thursday:
  "ISOWeek t =
    (let (y, r) = absYearDay (absDays t + 3 - absDays t mod 7) in (y, r div 7 + 1))"
proof -
  have "absDays t + (let x = 4 - (absDays t + 1) mod 7 in if x = 4 then - 3 else x) =
      absDays t + 3 - absDays t mod 7"
    unfolding thursday_offset by simp
  then show ?thesis by (simp add: ISOWeek_def Weekday_def Let_def add_diff_eq)
qed

lemma firstMonday_props:
  "firstMonday y mod 7 = 0" "daysSinceEpoch y - 3 \<le> firstMonday y"
  "firstMonday y \<le> daysSinceEpoch y + 3"
  unfolding firstMonday_def Let_def by presburger+

lemma mod7_split:
  fixes x :: int
  obtains q r where "x = 7 * q + r" "0 \<le> r" "r < 7" "x mod 7 = r" "x div 7 = q"
proof -
  have "x = 7 * (x div 7) + x mod 7" "0 \<le> x mod 7" "x mod 7 < 7" by simp_all
  then show ?thesis using that by blast
qed

lemma week_aligned:
  fixes j d :: int
  shows "j \<le> d + 3 - d mod 7 \<longleftrightarrow> (j + 3) - (j + 3) mod 7 \<le> d"
proof -
  obtain a u where j: "j + 3 = 7 * a + u" "0 \<le> u" "u < 7" "(j + 3) mod 7 = u"
    by (rule mod7_split [of "j + 3"]) blast
  obtain b v where d: "d = 7 * b + v" "0 \<le> v" "v < 7" "d mod 7 = v"
    by (rule mod7_split [of d]) blast
  show ?thesis
  proof (cases "a \<le> b")
    case True
    with j(1-3) d(1-3) show ?thesis unfolding j(4) d(4) by linarith
  next
    case False
    then have "b + 1 \<le> a" by simp
    with j(1-3) d(1-3) show ?thesis unfolding j(4) d(4) by linarith
  qed
qed

lemma week_index:
  fixes j d :: int
  assumes "(j + 3) - (j + 3) mod 7 \<le> d"
  shows "(d + 3 - d mod 7 - j) div 7 = (d - ((j + 3) - (j + 3) mod 7)) div 7"
proof -
  obtain a u where j: "j + 3 = 7 * a + u" "0 \<le> u" "u < 7" "(j + 3) mod 7 = u"
    by (rule mod7_split [of "j + 3"]) blast
  obtain b v where d: "d = 7 * b + v" "0 \<le> v" "v < 7" "d mod 7 = v"
    by (rule mod7_split [of d]) blast
  have "d + 3 - v - j = 7 * (b - a) + (6 - u)" using j(1) d(1) by simp
  then have l: "(d + 3 - v - j) div 7 = b - a"
    by (rule int_div_pos_eq) (use j in linarith)+
  have "d - (j + 3 - u) = 7 * (b - a) + v" using j(1) d(1) by simp
  then have r: "(d - (j + 3 - u)) div 7 = b - a"
    by (rule int_div_pos_eq) (use d in linarith)+
  show ?thesis unfolding j(4) d(4) l r ..
qed

lemma firstMonday_step_aux:
  fixes j j' :: int
  assumes "j' = j + 365 \<or> j' = j + 366"
  shows "j' + 3 - (j' + 3) mod 7 = j + 3 - (j + 3) mod 7 + 364 \<or>
    j' + 3 - (j' + 3) mod 7 = j + 3 - (j + 3) mod 7 + 371"
proof -
  obtain a u where j: "j + 3 = 7 * a + u" "0 \<le> u" "u < 7" "(j + 3) mod 7 = u"
    by (rule mod7_split [of "j + 3"]) blast
  have m: "(7 * q + r) mod 7 = r" if "0 \<le> r" "r < 7" for q r :: int
    using that by (intro int_mod_pos_eq [where q = q]) simp_all
  from assms show ?thesis
  proof
    assume e: "j' = j + 365"
    show ?thesis
    proof (cases "u \<le> 5")
      case True
      have "j' + 3 = 7 * (a + 52) + (u + 1)" using e j(1) by simp
      with m [of "u + 1" "a + 52"] True j(2) have "(j' + 3) mod 7 = u + 1" by simp
      then show ?thesis unfolding j(4) using e by simp
    next
      case False
      with j(3) have u: "u = 6" by simp
      have "j' + 3 = 7 * (a + 53) + 0" using e j(1) u by simp
      with m [of 0 "a + 53"] have "(j' + 3) mod 7 = 0" by simp
      then show ?thesis unfolding j(4) using e u by simp
    qed
  next
    assume e: "j' = j + 366"
    show ?thesis
    proof (cases "u \<le> 4")
      case True
      have "j' + 3 = 7 * (a + 52) + (u + 2)" using e j(1) by simp
      with m [of "u + 2" "a + 52"] True j(2) have "(j' + 3) mod 7 = u + 2" by simp
      then show ?thesis unfolding j(4) using e by simp
    next
      case False
      have "j' + 3 = 7 * (a + 53) + (u - 5)" using e j(1) by simp
      with m [of "u - 5" "a + 53"] False j(3) have "(j' + 3) mod 7 = u - 5" by simp
      then show ?thesis unfolding j(4) using e by simp
    qed
  qed
qed

lemma ISOWeek_year_ge: "y \<le> fst (ISOWeek t) \<longleftrightarrow> firstMonday y \<le> absDays t"
proof -
  obtain Y r where yr: "absYearDay (absDays t + 3 - absDays t mod 7) = (Y, r)"
    by (cases "absYearDay (absDays t + 3 - absDays t mod 7)")
  then have "fst (ISOWeek t) = Y" by (simp add: ISOWeek_thursday)
  with absYearDay_year_ge [OF yr, of y] week_aligned [of "daysSinceEpoch y" "absDays t"]
  show ?thesis by (simp add: firstMonday_def Let_def)
qed

lemma ISOWeek_in_year:
  assumes "firstMonday y \<le> absDays t" "absDays t < firstMonday (y + 1)"
  shows "ISOWeek t = (y, (absDays t - firstMonday y) div 7 + 1)"
proof -
  obtain Y r where yr: "absYearDay (absDays t + 3 - absDays t mod 7) = (Y, r)"
    by (cases "absYearDay (absDays t + 3 - absDays t mod 7)")
  then have i: "ISOWeek t = (Y, r div 7 + 1)" by (simp add: ISOWeek_thursday)
  from assms ISOWeek_year_ge [of y t] ISOWeek_year_ge [of "y + 1" t] i have Y: "Y = y" by simp
  from absYearDay_correct(1) [OF yr] have "r = absDays t + 3 - absDays t mod 7 - daysSinceEpoch y"
    by (simp add: Y)
  with week_index [of "daysSinceEpoch y" "absDays t"] assms(1)
  have "r div 7 = (absDays t - firstMonday y) div 7" by (simp add: firstMonday_def Let_def)
  with i Y show ?thesis by simp
qed

lemma firstMonday_step:
  "firstMonday (y + 1) = firstMonday y + 364 \<or> firstMonday (y + 1) = firstMonday y + 371"
proof -
  have "daysSinceEpoch (y + 1) = daysSinceEpoch y + 365 \<or>
      daysSinceEpoch (y + 1) = daysSinceEpoch y + 366"
    by (simp add: daysSinceEpoch_Suc)
  from firstMonday_step_aux [OF this] show ?thesis
    unfolding firstMonday_def Let_def .
qed

lemma backToMonday_midnight: "backToMonday (midnight d) = Some (midnight (d - d mod 7))"
proof (induction "nat (d mod 7)" arbitrary: d)
  case 0
  then have "d mod 7 = 0" by simp
  then show ?case by (subst backToMonday.simps) (simp add: Weekday_midnight)
next
  case (Suc n)
  then have p: "0 < d mod 7" by linarith
  obtain q r where d: "d = 7 * q + r" "0 \<le> r" "r < 7" "d mod 7 = r"
    by (rule mod7_split [of d]) blast
  have "d - 1 = 7 * q + (r - 1)" using d(1) by simp
  then have m: "(d - 1) mod 7 = r - 1"
    by (rule int_mod_pos_eq) (use p d in linarith)+
  with Suc.hyps(2) d(4) have "n = nat ((d - 1) mod 7)" by simp
  from Suc.hyps(1) [OF this]
  have "backToMonday (midnight (d - 1)) = Some (midnight (d - d mod 7))"
    by (simp add: m d(4))
  with p show ?case by (subst backToMonday.simps) (simp add: Weekday_midnight)
qed

lemma toFirstWeek_midnight:
  "d \<le> firstMonday y \<Longrightarrow> toFirstWeek y (midnight d) = Some (midnight (firstMonday y))"
proof (induction "nat (firstMonday y - d)" arbitrary: d)
  case 0
  then have d: "d = firstMonday y" by simp
  from ISOWeek_year_ge [of y "midnight d"] d have "\<not> fst (ISOWeek (midnight d)) < y" by simp
  then show ?case by (subst toFirstWeek.simps) (simp add: d)
next
  case (Suc n)
  then have l: "d < firstMonday y" by linarith
  with ISOWeek_year_ge [of y "midnight d"] have "fst (ISOWeek (midnight d)) < y" by simp
  moreover have "toFirstWeek y (midnight (d + 1)) = Some (midnight (firstMonday y))"
    by (rule Suc.hyps(1)) (use Suc.hyps(2) l in linarith)+
  ultimately show ?case by (subst toFirstWeek.simps) simp
qed

lemma toGivenWeek_midnight:
  assumes "firstMonday y \<le> d" "d \<le> firstMonday y + 7 * (w - 1)"
    "firstMonday y + 7 * (w - 1) < firstMonday (y + 1)"
  shows "toGivenWeek w (midnight d) = Some (midnight (firstMonday y + 7 * (w - 1)))"
  using assms(1,2)
proof (induction "nat (firstMonday y + 7 * (w - 1) - d)" arbitrary: d)
  case 0
  then have d: "d = firstMonday y + 7 * (w - 1)" by simp
  with assms(3) ISOWeek_in_year [of y "midnight d"] 0(2)
  have "ISOWeek (midnight d) = (y, (7 * (w - 1)) div 7 + 1)" by simp
  then have "\<not> snd (ISOWeek (midnight d)) < w" by simp
  then show ?case by (subst toGivenWeek.simps) (simp add: d)
next
  case (Suc n)
  then have l: "d < firstMonday y + 7 * (w - 1)" by linarith
  with assms(3) ISOWeek_in_year [of y "midnight d"] Suc(3)
  have i: "ISOWeek (midnight d) = (y, (d - firstMonday y) div 7 + 1)" by simp
  have "7 * ((d - firstMonday y) div 7) \<le> d - firstMonday y"
    by (rule div_bounds) simp
  define k where "k = (d - firstMonday y) div 7"
  have "7 * k \<le> d - firstMonday y"
    unfolding k_def by (rule div_bounds) simp
  with l have "k < w - 1" by simp
  then have "(d - firstMonday y) div 7 < w - 1" by (simp add: k_def)
  with i have "snd (ISOWeek (midnight d)) < w" by simp
  moreover have "toGivenWeek w (midnight (d + 1)) = Some (midnight (firstMonday y + 7 * (w - 1)))"
    by (rule Suc.hyps(1)) (use Suc.hyps(2) Suc.prems l in linarith)+
  ultimately show ?case by (subst toGivenWeek.simps) simp
qed

lemma toStartWeek_midnight:
  "d mod 7 = 0 \<Longrightarrow> toStartWeek (midnight d) = Some (midnight d)"
  by (subst toStartWeek.simps) (simp add: StartWeek_def Weekday_midnight)

lemma Date_seed: "Date year 0 0 0 0 0 0 = midnight (daysSinceEpoch year - 32)"
proof -
  have "daysSinceEpoch year = daysSinceEpoch (year - 1) + (if isLeap (year - 1) then 366 else 365)"
    using daysSinceEpoch_Suc [of "year - 1"] by simp
  then show ?thesis
    by (simp add: Date_def Let_def midnight_def nsPerDay_def daysBefore_def)
qed

lemma ISOWeek_eq_iff:
  "ISOWeek t = (y, w) \<longleftrightarrow>
    firstMonday y \<le> absDays t \<and> absDays t < firstMonday (y + 1) \<and>
    (absDays t - firstMonday y) div 7 + 1 = w"
proof
  assume i: "ISOWeek t = (y, w)"
  from ISOWeek_year_ge [of y t] ISOWeek_year_ge [of "y + 1" t] i
  have r: "firstMonday y \<le> absDays t" "absDays t < firstMonday (y + 1)" by simp_all
  from ISOWeek_in_year [OF r] i
  show "firstMonday y \<le> absDays t \<and> absDays t < firstMonday (y + 1) \<and>
    (absDays t - firstMonday y) div 7 + 1 = w" using r by simp
next
  assume "firstMonday y \<le> absDays t \<and> absDays t < firstMonday (y + 1) \<and>
    (absDays t - firstMonday y) div 7 + 1 = w"
  with ISOWeek_in_year [of y t] show "ISOWeek t = (y, w)" by simp
qed

lemma week_span:
  fixes x W w :: int
  shows "(x - W) div 7 + 1 = w \<longleftrightarrow> W + 7 * (w - 1) \<le> x \<and> x < W + 7 * w"
proof -
  define k where "k = (x - W) div 7"
  have b: "7 * k \<le> x - W" "x - W < 7 * k + 7"
    unfolding k_def using div_bounds [of 7 "x - W"] by simp_all
  have "k + 1 = w \<longleftrightarrow> W + 7 * (w - 1) \<le> x \<and> x < W + 7 * w"
  proof
    assume "k + 1 = w"
    with b show "W + 7 * (w - 1) \<le> x \<and> x < W + 7 * w" by auto
  next
    assume h: "W + 7 * (w - 1) \<le> x \<and> x < W + 7 * w"
    show "k + 1 = w"
    proof (rule ccontr)
      assume "k + 1 \<noteq> w"
      then consider "k + 2 \<le> w" | "w \<le> k" by linarith
      then show False
      proof cases
        case 1 with h b show False by simp
      next
        case 2 with h b show False by simp
      qed
    qed
  qed
  then show ?thesis by (simp add: k_def)
qed

text \<open>An ISO year has a week \<open>w\<close> when that week begins before week 1 of the next year.\<close>

definition hasWeek :: "int \<Rightarrow> int \<Rightarrow> bool" where
  "hasWeek y w \<longleftrightarrow> 1 \<le> w \<and> firstMonday y + 7 * (w - 1) < firstMonday (y + 1)"

lemma span_le:
  fixes w n :: int
  assumes "7 * (w - 1) < n" "n = 364 \<or> n = 371"
  shows "7 * w \<le> n"
  using assms by presburger

lemma hasWeek_upper:
  assumes "hasWeek y w"
  shows "firstMonday y + 7 * w \<le> firstMonday (y + 1)"
proof -
  define n where "n = firstMonday (y + 1) - firstMonday y"
  from firstMonday_step [of y] have n: "n = 364 \<or> n = 371" by (auto simp: n_def)
  from assms have "7 * (w - 1) < n" by (simp add: hasWeek_def n_def)
  from span_le [OF this n] show ?thesis by (simp add: n_def)
qed

lemma ISOWeek_hasWeek: "ISOWeek t = (y, w) \<Longrightarrow> hasWeek y w"
proof -
  assume "ISOWeek t = (y, w)"
  then have r: "firstMonday y \<le> absDays t" "absDays t < firstMonday (y + 1)"
    "(absDays t - firstMonday y) div 7 + 1 = w" by (simp_all add: ISOWeek_eq_iff)
  from r(3) have s: "firstMonday y + 7 * (w - 1) \<le> absDays t" "absDays t < firstMonday y + 7 * w"
    by (simp_all add: week_span)
  with r(1,2) show ?thesis unfolding hasWeek_def by linarith
qed

lemma ISOWeek_iff_span:
  assumes "hasWeek y w"
  shows "ISOWeek t = (y, w) \<longleftrightarrow>
    firstMonday y + 7 * (w - 1) \<le> absDays t \<and> absDays t < firstMonday y + 7 * w"
proof
  assume "ISOWeek t = (y, w)"
  then show "firstMonday y + 7 * (w - 1) \<le> absDays t \<and> absDays t < firstMonday y + 7 * w"
    by (simp add: ISOWeek_eq_iff week_span)
next
  assume h: "firstMonday y + 7 * (w - 1) \<le> absDays t \<and> absDays t < firstMonday y + 7 * w"
  with assms hasWeek_upper [OF assms]
  have "firstMonday y \<le> absDays t \<and> absDays t < firstMonday (y + 1)"
    unfolding hasWeek_def by simp
  with h show "ISOWeek t = (y, w)" by (simp add: ISOWeek_eq_iff week_span)
qed

lemma hasWeek_52: "1 \<le> w \<Longrightarrow> w \<le> 52 \<Longrightarrow> hasWeek y w"
  using firstMonday_step [of y] unfolding hasWeek_def by auto

lemma hasWeek_le_53: "hasWeek y w \<Longrightarrow> w \<le> 53"
  using firstMonday_step [of y] unfolding hasWeek_def by auto

lemma CreateFromWeek_hasWeek:
  assumes "hasWeek y w"
  shows "CreateFromWeek y w =
    Some (\<lparr>Start = midnight (firstMonday y + 7 * (w - 1)),
           End = midnight (firstMonday y + 7 * w)\<rparr>, [])"
proof -
  from assms hasWeek_le_53 [OF assms] have w: "1 \<le> w" "w \<le> 53"
    by (simp_all add: hasWeek_def)
  define d0 where "d0 = daysSinceEpoch y - 32"
  have m0: "d0 - d0 mod 7 \<le> firstMonday y"
  proof -
    have "0 \<le> d0 mod 7" by simp
    with firstMonday_props(2) [of y] show ?thesis unfolding d0_def by linarith
  qed
  have a: "backToMonday (Date y 0 0 0 0 0 0) = Some (midnight (d0 - d0 mod 7))"
    by (simp add: Date_seed backToMonday_midnight d0_def)
  have b: "toFirstWeek y (midnight (d0 - d0 mod 7)) = Some (midnight (firstMonday y))"
    using m0 by (rule toFirstWeek_midnight)
  define T where "T = firstMonday y + 7 * (w - 1)"
  have c: "toGivenWeek w (midnight (firstMonday y)) = Some (midnight T)"
    unfolding T_def by (rule toGivenWeek_midnight) (use assms in \<open>simp_all add: hasWeek_def\<close>)
  have "T mod 7 = 0"
    unfolding T_def using firstMonday_props(1) [of y]
    by (simp add: mod_add_eq [symmetric] mod_eq_0_iff_dvd)
  then have d: "toStartWeek (midnight T) = Some (midnight T)"
    by (rule toStartWeek_midnight)
  have "CreateFromWeek y w = Some (\<lparr>Start = midnight T, End = midnight (T + 7)\<rparr>, [])"
    using w by (simp add: CreateFromWeek_def validateRange_def a b c d)
  moreover have "T + 7 = firstMonday y + 7 * w" by (simp add: T_def)
  ultimately show ?thesis by (simp add: T_def)
qed

lemma hasWeek_53_iff: "hasWeek y 53 \<longleftrightarrow> firstMonday (y + 1) = firstMonday y + 371"
  using firstMonday_step [of y] unfolding hasWeek_def by auto

lemma toGivenWeek_skip:
  assumes "firstMonday (y + 1) = firstMonday y + 364"
  shows "firstMonday y \<le> d \<Longrightarrow> d \<le> firstMonday (y + 1) \<Longrightarrow>
    toGivenWeek 53 (midnight d) = toGivenWeek 53 (midnight (firstMonday (y + 1)))"
proof (induction "nat (firstMonday (y + 1) - d)" arbitrary: d)
  case 0
  then have "d = firstMonday (y + 1)" by simp
  then show ?case by simp
next
  case (Suc n)
  then have l: "d < firstMonday (y + 1)" by linarith
  with ISOWeek_in_year [of y "midnight d"] Suc(3)
  have i: "ISOWeek (midnight d) = (y, (d - firstMonday y) div 7 + 1)" by simp
  define k where "k = (d - firstMonday y) div 7"
  have "7 * k \<le> d - firstMonday y"
    unfolding k_def by (rule div_bounds) simp
  with l assms have "k < 52" by simp
  with i have "snd (ISOWeek (midnight d)) < 53" by (simp add: k_def)
  moreover have "toGivenWeek 53 (midnight (d + 1)) =
      toGivenWeek 53 (midnight (firstMonday (y + 1)))"
    by (rule Suc.hyps(1)) (use Suc.hyps(2) Suc.prems l in linarith)+
  ultimately show ?case by (subst toGivenWeek.simps) simp
qed

lemma daysSinceEpoch_400: "daysSinceEpoch (y + 400) = daysSinceEpoch y + 146097"
proof -
  have "(y - 1 + 4 * 100) div 4 = 100 + (y - 1) div 4" by (rule div_mult_self2) simp
  then have a: "(y + 400 - 1) div 4 = (y - 1) div 4 + 100" by (simp add: algebra_simps)
  have "(y - 1 + 100 * 4) div 100 = 4 + (y - 1) div 100" by (rule div_mult_self2) simp
  then have b: "(y + 400 - 1) div 100 = (y - 1) div 100 + 4" by (simp add: algebra_simps)
  have "(y - 1 + 400 * 1) div 400 = 1 + (y - 1) div 400" by (rule div_mult_self2) simp
  then have c: "(y + 400 - 1) div 400 = (y - 1) div 400 + 1" by (simp add: algebra_simps)
  show ?thesis unfolding daysSinceEpoch_def Let_def a b c by simp
qed

lemma firstMonday_400: "firstMonday (y + 400) = firstMonday y + 146097"
proof -
  have "(daysSinceEpoch y + 3 + 7 * 20871) mod 7 = (daysSinceEpoch y + 3) mod 7"
    by (rule mod_mult_self2)
  then show ?thesis by (simp add: firstMonday_def Let_def daysSinceEpoch_400 algebra_simps)
qed

lemma firstMonday_run:
  "(\<forall>i<n. firstMonday (y + int i + 1) = firstMonday (y + int i) + 364) \<Longrightarrow>
    firstMonday (y + int n) = firstMonday y + 364 * int n"
proof (induction n)
  case 0
  show ?case by simp
next
  case (Suc n)
  then have "firstMonday (y + int n) = firstMonday y + 364 * int n" by simp
  moreover from Suc.prems have "firstMonday (y + int n + 1) = firstMonday (y + int n) + 364"
    by simp
  moreover have e: "y + int (Suc n) = y + int n + 1" by simp
  ultimately show ?case unfolding e by simp
qed

lemma exists_53: "\<exists>k. hasWeek (y + int k) 53"
proof (rule ccontr)
  assume "\<not> (\<exists>k. hasWeek (y + int k) 53)"
  then have "\<forall>i<400. firstMonday (y + int i + 1) = firstMonday (y + int i) + 364"
    using firstMonday_step by (auto simp: hasWeek_53_iff)
  from firstMonday_run [OF this] firstMonday_400 [of y] show False by simp
qed

lemma first_53:
  obtains k where "hasWeek (y + int k) 53" "\<forall>i<k. \<not> hasWeek (y + int i) 53"
proof -
  define k where "k = (LEAST k. hasWeek (y + int k) 53)"
  from exists_53 [of y] have "hasWeek (y + int k) 53"
    unfolding k_def by (rule LeastI_ex)
  moreover have "\<forall>i<k. \<not> hasWeek (y + int i) 53"
    unfolding k_def using not_less_Least by blast
  ultimately show ?thesis by (rule that)
qed

lemma toGivenWeek_53_run:
  "(\<forall>i<k. \<not> hasWeek (y + int i) 53) \<Longrightarrow>
    toGivenWeek 53 (midnight (firstMonday y)) =
    toGivenWeek 53 (midnight (firstMonday (y + int k)))"
proof (induction k)
  case 0
  show ?case by simp
next
  case (Suc k)
  then have a: "toGivenWeek 53 (midnight (firstMonday y)) =
      toGivenWeek 53 (midnight (firstMonday (y + int k)))" by simp
  from Suc.prems have "\<not> hasWeek (y + int k) 53" by simp
  with firstMonday_step [of "y + int k"]
  have s: "firstMonday (y + int k + 1) = firstMonday (y + int k) + 364"
    by (simp add: hasWeek_53_iff)
  have "toGivenWeek 53 (midnight (firstMonday (y + int k))) =
      toGivenWeek 53 (midnight (firstMonday (y + int k + 1)))"
    by (rule toGivenWeek_skip [OF s]) (simp_all add: s)
  moreover have e: "y + int (Suc k) = y + int k + 1" by simp
  ultimately show ?case unfolding e using a by simp
qed

lemma CreateFromWeek_via:
  assumes w: "1 \<le> w" "w \<le> 53"
    and c: "toGivenWeek w (midnight (firstMonday y)) = Some (midnight T)"
    and T: "T mod 7 = 0"
  shows "CreateFromWeek y w = Some (\<lparr>Start = midnight T, End = midnight (T + 7)\<rparr>, [])"
proof -
  define d0 where "d0 = daysSinceEpoch y - 32"
  have m0: "d0 - d0 mod 7 \<le> firstMonday y"
  proof -
    have "0 \<le> d0 mod 7" by simp
    with firstMonday_props(2) [of y] show ?thesis unfolding d0_def by linarith
  qed
  have a: "backToMonday (Date y 0 0 0 0 0 0) = Some (midnight (d0 - d0 mod 7))"
    by (simp add: Date_seed backToMonday_midnight d0_def)
  have b: "toFirstWeek y (midnight (d0 - d0 mod 7)) = Some (midnight (firstMonday y))"
    using m0 by (rule toFirstWeek_midnight)
  from T have d: "toStartWeek (midnight T) = Some (midnight T)"
    by (rule toStartWeek_midnight)
  show ?thesis
    using w by (simp add: CreateFromWeek_def validateRange_def a b c d)
qed

lemma week_start_aligned: "(firstMonday y + 7 * (w - 1)) mod 7 = 0"
  using firstMonday_props(1) [of y] by (simp add: mod_add_eq [symmetric] mod_eq_0_iff_dvd)

lemma CreateFromWeek_first:
  assumes "hasWeek (y + int k) w" "\<forall>i<k. \<not> hasWeek (y + int i) w"
  shows "CreateFromWeek y w =
    Some (\<lparr>Start = midnight (firstMonday (y + int k) + 7 * (w - 1)),
           End = midnight (firstMonday (y + int k) + 7 * (w - 1) + 7)\<rparr>, [])"
proof -
  from assms(1) hasWeek_le_53 [OF assms(1)] have w: "1 \<le> w" "w \<le> 53"
    by (simp_all add: hasWeek_def)
  have g: "toGivenWeek w (midnight (firstMonday (y + int k))) =
      Some (midnight (firstMonday (y + int k) + 7 * (w - 1)))"
    by (rule toGivenWeek_midnight) (use assms(1) in \<open>simp_all add: hasWeek_def\<close>)
  have "toGivenWeek w (midnight (firstMonday y)) =
      toGivenWeek w (midnight (firstMonday (y + int k)))"
  proof (cases "k = 0")
    case True
    then show ?thesis by simp
  next
    case False
    with assms(2) have "\<not> hasWeek (y + int 0) w" by blast
    with w hasWeek_52 [of w y] have "w = 53" by (cases "w \<le> 52") simp_all
    with assms(2) toGivenWeek_53_run [of k y] show ?thesis by simp
  qed
  with g have "toGivenWeek w (midnight (firstMonday y)) =
      Some (midnight (firstMonday (y + int k) + 7 * (w - 1)))" by simp
  from CreateFromWeek_via [OF w this week_start_aligned] show ?thesis .
qed

lemma first_hasWeek:
  assumes "1 \<le> w" "w \<le> 53"
  obtains k where "hasWeek (y + int k) w" "\<forall>i<k. \<not> hasWeek (y + int i) w"
proof (cases "w \<le> 52")
  case True
  with assms(1) have "hasWeek (y + int 0) w" by (simp add: hasWeek_52)
  moreover have "\<forall>i<(0::nat). \<not> hasWeek (y + int i) w" by simp
  ultimately show ?thesis by (rule that)
next
  case False
  with assms(2) have "w = 53" by simp
  with first_53 [of y] that show ?thesis by blast
qed

lemma days_le_iff: "T * nsPerDay \<le> x \<longleftrightarrow> T \<le> x div nsPerDay"
proof -
  define q where "q = x div 86400000000000"
  have b: "86400000000000 * q \<le> x" "x < 86400000000000 * q + 86400000000000"
    unfolding q_def using div_bounds [of 86400000000000 x] by simp_all
  have "T * 86400000000000 \<le> x \<longleftrightarrow> T \<le> q"
  proof (cases "T \<le> q")
    case True
    with b show ?thesis by simp
  next
    case False
    then have "q + 1 \<le> T" by simp
    with b False show ?thesis by simp
  qed
  then show ?thesis by (simp add: nsPerDay_def q_def)
qed

lemma days_less_iff: "x < T * nsPerDay \<longleftrightarrow> x div nsPerDay < T"
  using days_le_iff [of T x] by linarith

lemma midnight_props:
  "since_zero (midnight T) = T * nsPerDay"
  "Time_Clock (midnight T) = (0, 0, 0)"
  "Time_Nanosecond (midnight T) = 0"
proof -
  show "since_zero (midnight T) = T * nsPerDay" by (simp add: midnight_def)
  have e: "T * 86400000000000 = (T * 86400) * 1000000000" by simp
  have "(T * 86400000000000) div 1000000000 = T * 86400"
    unfolding e by (rule nonzero_mult_div_cancel_right) simp
  then show "Time_Clock (midnight T) = (0, 0, 0)"
    by (simp add: Time_Clock_def midnight_def nsPerDay_def Let_def)
  have "(T * 86400000000000) mod 1000000000 = 0"
    unfolding e by (rule mod_mult_self2_is_0)
  then show "Time_Nanosecond (midnight T) = 0"
    by (simp add: Time_Nanosecond_def midnight_def nsPerDay_def)
qed

lemma week_of_midnight:
  assumes "hasWeek y w"
  shows "ISOWeek t = (y, w) \<longleftrightarrow>
    since_zero (midnight (firstMonday y + 7 * (w - 1))) \<le> since_zero t \<and>
    since_zero t < since_zero (midnight (firstMonday y + 7 * (w - 1))) + 7 * nsPerDay"
proof -
  have "since_zero (midnight (firstMonday y + 7 * (w - 1))) + 7 * nsPerDay =
      (firstMonday y + 7 * w) * nsPerDay"
    by (simp add: midnight_props algebra_simps)
  then show ?thesis
    unfolding ISOWeek_iff_span [OF assms]
    by (simp add: midnight_props(1) days_le_iff days_less_iff absDays_def)
qed

lemma CreateFromWeek_total:
  assumes "1 \<le> w" "w \<le> 53"
  shows "\<exists>s y'. CreateFromWeek y w =
      Some (\<lparr>Start = s, End = Time (since_zero s + 7 * nsPerDay)\<rparr>, []) \<and>
    Weekday s = Monday \<and> Time_Clock s = (0, 0, 0) \<and> Time_Nanosecond s = 0 \<and> y \<le> y' \<and>
    (\<forall>t. ISOWeek t = (y', w) \<longleftrightarrow>
      since_zero s \<le> since_zero t \<and> since_zero t < since_zero s + 7 * nsPerDay) \<and>
    (\<forall>y'' t. y \<le> y'' \<and> y'' < y' \<longrightarrow> ISOWeek t \<noteq> (y'', w))"
proof -
  obtain k where k: "hasWeek (y + int k) w" "\<forall>i<k. \<not> hasWeek (y + int i) w"
    using assms by (rule first_hasWeek)
  define T where "T = firstMonday (y + int k) + 7 * (w - 1)"
  have c: "CreateFromWeek y w = Some (\<lparr>Start = midnight T, End = midnight (T + 7)\<rparr>, [])"
    unfolding T_def by (rule CreateFromWeek_first [OF k])
  have e: "midnight (T + 7) = Time (since_zero (midnight T) + 7 * nsPerDay)"
    by (simp add: midnight_def algebra_simps)
  have m: "Weekday (midnight T) = Monday"
    unfolding T_def Weekday_midnight by (rule week_start_aligned)
  have i: "\<forall>t. ISOWeek t = (y + int k, w) \<longleftrightarrow>
      since_zero (midnight T) \<le> since_zero t \<and>
      since_zero t < since_zero (midnight T) + 7 * nsPerDay"
    unfolding T_def using week_of_midnight [OF k(1)] by blast
  have n: "ISOWeek t \<noteq> (y'', w)" if "y \<le> y'' \<and> y'' < y + int k" for y'' t
  proof
    assume "ISOWeek t = (y'', w)"
    then have "hasWeek y'' w" by (rule ISOWeek_hasWeek)
    moreover from that have "y'' = y + int (nat (y'' - y))" by simp
    moreover from that have "nat (y'' - y) < k" by linarith
    ultimately show False using k(2) by metis
  qed
  from c e m i n midnight_props(2,3) [of T] show ?thesis
    by (intro exI [of _ "midnight T"] exI [of _ "y + int k"]) simp
qed

lemma firstMonday_2015: "firstMonday 2014 = 735231" "firstMonday 2015 = 735595"
  "firstMonday 2016 = 735966"
  by (simp_all add: firstMonday_def daysSinceEpoch_def Let_def)

lemma CreateFromWeek_2015_1:
  "CreateFromWeek 2015 1 =
    Some (\<lparr>Start = Date 2014 12 29 0 0 0 0, End = Date 2015 1 5 0 0 0 0\<rparr>, [])"
proof -
  have "hasWeek 2015 1" by (rule hasWeek_52) simp_all
  from CreateFromWeek_hasWeek [OF this] show ?thesis
    by (simp add: firstMonday_2015 midnight_def Date_def Let_def daysSinceEpoch_def isLeap_def
        daysBefore_def nsPerDay_def)
qed

lemma CreateFromWeek_2014_53:
  "CreateFromWeek 2014 53 =
    Some (\<lparr>Start = Date 2015 12 28 0 0 0 0, End = Date 2016 1 4 0 0 0 0\<rparr>, [])"
proof -
  have a: "hasWeek (2014 + int 1) 53" by (simp add: hasWeek_53_iff firstMonday_2015)
  have "\<not> hasWeek 2014 53" by (simp add: hasWeek_53_iff firstMonday_2015)
  then have b: "\<forall>i<1. \<not> hasWeek (2014 + int i) 53" by simp
  from CreateFromWeek_first [OF a b] show ?thesis
    by (simp add: firstMonday_2015 midnight_def Date_def Let_def daysSinceEpoch_def isLeap_def
        daysBefore_def nsPerDay_def)
qed

lemma no_week_2014_53: "ISOWeek t \<noteq> (2014, 53)"
proof
  assume "ISOWeek t = (2014, 53)"
  then have "hasWeek 2014 53" by (rule ISOWeek_hasWeek)
  then show False by (simp add: hasWeek_53_iff firstMonday_2015)
qed

lemma ISOWeek_2015_12_28: "ISOWeek (Date 2015 12 28 0 0 0 0) = (2015, 53)"
  by (simp add: ISOWeek_eq_iff firstMonday_2015 absDays_def Date_def Let_def daysSinceEpoch_def
      isLeap_def daysBefore_def nsPerDay_def)

lemma ISOWeek_2014_12_29: "ISOWeek (Date 2014 12 29 0 0 0 0) = (2015, 1)"
  by (simp add: ISOWeek_eq_iff firstMonday_2015 absDays_def Date_def Let_def daysSinceEpoch_def
      isLeap_def daysBefore_def nsPerDay_def)

section \<open>Years that do not parse\<close>

lemma digitChars_nth: "n < 10 \<Longrightarrow> digitChars ! n \<in> set digitChars"
  by (rule nth_mem) (simp add: digitChars_def)

lemma minus_not_digit: "CHR ''-'' \<notin> set digitChars"
  by (simp add: digitChars_def)

lemma decimal_digits: "set (decimal n) \<subseteq> set digitChars"
proof (induction n rule: decimal.induct)
  case (1 n)
  show ?case
  proof (cases "n < 10")
    case True
    then show ?thesis by (subst decimal.simps) (simp add: digitChars_nth)
  next
    case False
    with 1 have "set (decimal (n div 10)) \<subseteq> set digitChars" by simp
    moreover have "digitChars ! (n mod 10) \<in> set digitChars" by (rule digitChars_nth) simp
    ultimately show ?thesis using False by (subst decimal.simps) simp
  qed
qed

lemma length_decimal_le: "0 < k \<Longrightarrow> n < 10 ^ k \<Longrightarrow> length (decimal n) \<le> k"
proof (induction n arbitrary: k rule: decimal.induct)
  case (1 n)
  show ?case
  proof (cases "n < 10")
    case True
    with 1(2) show ?thesis by (subst decimal.simps) simp
  next
    case False
    from 1(2) obtain j where k: "k = Suc j" by (cases k) simp_all
    from False 1(3) have "0 < j" unfolding k by (cases j) simp_all
    moreover from 1(3) have "n div 10 < 10 ^ j" unfolding k by (simp add: less_mult_imp_div_less)
    ultimately have "length (decimal (n div 10)) \<le> j" using 1(1) False by simp
    with False show ?thesis unfolding k by (subst decimal.simps) simp
  qed
qed

lemma length_decimal_gt: "10 ^ k \<le> n \<Longrightarrow> k < length (decimal n)"
proof (induction k arbitrary: n)
  case 0
  show ?case by (subst decimal.simps) simp
next
  case (Suc k)
  have a: "(1::nat) \<le> 10 ^ k" by simp
  from Suc.prems have "10 * 10 ^ k \<le> n" by simp
  with a have n: "\<not> n < 10" by linarith
  from Suc.prems have "10 ^ k \<le> n div 10" by (simp add: less_eq_div_iff_mult_less_eq)
  then have "k < length (decimal (n div 10))" by (rule Suc.IH)
  with n show ?case by (subst decimal.simps) simp
qed

lemma parseYMDHIS_None:
  "atoi (take 4 value) = None \<or> skipChar CHR ''-'' (drop 4 value) = None \<Longrightarrow>
    parseYMDHIS value = None"
  by (auto simp: parseYMDHIS_def split: Option.bind_splits)

lemma parse_year_short:
  assumes "length ds \<le> 3"
  shows "parseYMDHIS (ds @ CHR ''-'' # rest) = None"
proof -
  have "take 4 (ds @ CHR ''-'' # rest) = ds @ take (4 - length ds) (CHR ''-'' # rest)"
    using assms by simp
  moreover from assms obtain j where "4 - length ds = Suc j" by (cases "4 - length ds") simp_all
  ultimately have "CHR ''-'' \<in> set (take 4 (ds @ CHR ''-'' # rest))" by simp
  with minus_not_digit have "atoi (take 4 (ds @ CHR ''-'' # rest)) = None"
    by (auto simp: atoi_def)
  then show ?thesis by (intro parseYMDHIS_None) simp
qed

lemma parse_year_long:
  assumes "5 \<le> length ds" "set ds \<subseteq> set digitChars"
  shows "parseYMDHIS (ds @ rest) = None"
proof -
  from assms(1) have d: "drop 4 (ds @ rest) = drop 4 ds @ rest" "drop 4 ds \<noteq> []" by simp_all
  then obtain c cs where c: "drop 4 ds = c # cs" by (cases "drop 4 ds") simp_all
  have "c \<in> set (drop 4 ds)" by (simp add: c)
  then have "c \<in> set ds" by (rule in_set_dropD)
  with assms(2) minus_not_digit have "c \<noteq> CHR ''-''" by auto
  then have "skipChar CHR ''-'' (drop 4 (ds @ rest)) = None"
    by (simp add: d c skipChar_def)
  then show ?thesis by (intro parseYMDHIS_None) simp
qed

lemma parse_year_negative: "parseYMDHIS (CHR ''-'' # rest) = None"
  using minus_not_digit by (simp add: parseYMDHIS_def isDigit_def)

lemma parse_bad_year:
  assumes "year < 1000 \<or> 9999 < year"
  shows "parseYMDHIS (fmt_d year @ CHR ''-'' # rest) = None"
proof -
  consider "year < 0" | "0 \<le> year" "year < 1000" | "9999 < year" using assms by linarith
  then show ?thesis
  proof cases
    case 1
    then show ?thesis by (simp add: fmt_d_def parse_year_negative)
  next
    case 2
    then have "nat year < 10 ^ 3" by simp
    then have "length (decimal (nat year)) \<le> 3" by (intro length_decimal_le) simp_all
    with 2 show ?thesis by (simp add: fmt_d_def parse_year_short)
  next
    case 3
    then have "10 ^ 4 \<le> nat year" by simp
    then have "4 < length (decimal (nat year))" by (rule length_decimal_gt)
    then have "5 \<le> length (decimal (nat year))" by simp
    from parse_year_long [OF this decimal_digits] 3 show ?thesis by (simp add: fmt_d_def)
  qed
qed

lemma Parse_bad_year:
  assumes "year < 1000 \<or> 9999 < year"
  shows "Parse_YMDHIS (Sprintf_year year) = (zeroTime, True)"
    "Parse_YMDHIS (Sprintf_date year month) = (zeroTime, True)"
  using parse_bad_year [OF assms] by (simp_all add: Parse_YMDHIS_def Sprintf_year_def Sprintf_date_def)

lemma AddDate_zeroTime:
  "AddDate zeroTime 1 0 0 = Date 2 1 1 0 0 0 0" "AddDate zeroTime 0 1 0 = Date 1 2 1 0 0 0 0"
  "AddDate zeroTime 0 3 0 = Date 1 4 1 0 0 0 0" "AddDate zeroTime 0 6 0 = Date 1 7 1 0 0 0 0"
  by (simp_all add: AddDate_def Time_Date_def Time_Clock_def Time_Nanosecond_def zeroTime_def
      absDays_def nsPerDay_def absYearDay_def monthDay_def monthOfDay_def isLeap_def Let_def
      daysBefore_def)

lemma Date_values:
  "Date 2 1 1 0 0 0 0 = Time 31536000000000000" "Date 1 2 1 0 0 0 0 = Time 2678400000000000"
  "Date 1 4 1 0 0 0 0 = Time 7776000000000000" "Date 1 7 1 0 0 0 0 = Time 15638400000000000"
  by (simp_all add: Date_def Let_def daysSinceEpoch_def isLeap_def daysBefore_def)

section \<open>Years of four digits\<close>

lemma digitValue_nth: "k < 10 \<Longrightarrow> digitValue (digitChars ! k) = int k"
proof -
  assume "k < 10"
  then consider "k = 0" | "k = 1" | "k = 2" | "k = 3" | "k = 4" | "k = 5" | "k = 6" | "k = 7"
    | "k = 8" | "k = 9" by atomize_elim arith
  then show ?thesis by cases (simp_all add: digitChars_def)
qed

lemma decimal_small: "n < 10 \<Longrightarrow> decimal n = [digitChars ! n]"
  by (subst decimal.simps) simp

lemma decimal_step: "10 \<le> n \<Longrightarrow> decimal n = decimal (n div 10) @ [digitChars ! (n mod 10)]"
  by (subst decimal.simps) simp

lemma decimal_four:
  assumes "1000 \<le> n" "n \<le> 9999"
  shows "decimal n = [digitChars ! (n div 1000), digitChars ! (n div 100 mod 10),
    digitChars ! (n div 10 mod 10), digitChars ! (n mod 10)]"
proof -
  have a: "n div 10 div 10 = n div 100" "n div 100 div 10 = n div 1000"
    by (simp_all add: div_mult2_eq [symmetric])
  from assms have b: "10 \<le> n" "10 \<le> n div 10" "10 \<le> n div 100" "n div 1000 < 10"
    by simp_all
  show ?thesis
    using b(3,4) by (simp add: decimal_step [OF b(1)] decimal_step [OF b(2)] a decimal_step
        decimal_small)
qed

lemma four_digits:
  fixes n :: nat
  shows "((n div 1000 * 10 + n div 100 mod 10) * 10 + n div 10 mod 10) * 10 + n mod 10 = n"
proof -
  have a: "n div 10 div 10 = n div 100" "n div 100 div 10 = n div 1000"
    by (simp_all add: div_mult2_eq [symmetric])
  have "n div 100 = n div 1000 * 10 + n div 100 mod 10"
    using div_mult_mod_eq [of "n div 100" 10] by (simp add: a)
  moreover have "n div 10 = n div 100 * 10 + n div 10 mod 10"
    using div_mult_mod_eq [of "n div 10" 10] by (simp add: a)
  moreover have "n = n div 10 * 10 + n mod 10" by simp
  ultimately show ?thesis by metis
qed

lemma atoi_four:
  assumes "1000 \<le> y" "y \<le> 9999"
  shows "atoi (decimal (nat y)) = Some y" "length (decimal (nat y)) = 4"
    "isDigit (decimal (nat y) @ rest) 0"
proof -
  define n where "n = nat y"
  from assms have n: "1000 \<le> n" "n \<le> 9999" "int n = y" by (simp_all add: n_def)
  have d: "n div 1000 < 10" "n div 100 mod 10 < 10" "n div 10 mod 10 < 10" "n mod 10 < 10"
    using n(2) by simp_all
  note c = decimal_four [OF n(1,2)]
  have "int (((n div 1000 * 10 + n div 100 mod 10) * 10 + n div 10 mod 10) * 10 + n mod 10)
      = int n" by (simp only: four_digits)
  then show "atoi (decimal (nat y)) = Some y"
    unfolding n_def [symmetric] c using d n(3)
    by (simp add: atoi_def digitChars_nth digitValue_nth del: digitValue.simps)
  show "length (decimal (nat y)) = 4" unfolding n_def [symmetric] c by simp
  show "isDigit (decimal (nat y) @ rest) 0"
    unfolding n_def [symmetric] c using d by (simp add: isDigit_def digitChars_nth)
qed

lemma fmt_02d_month:
  assumes "1 \<le> m" "m \<le> 12"
  shows "fmt_02d m = [digitChars ! (nat m div 10), digitChars ! (nat m mod 10)]"
proof (cases "m < 10")
  case True
  with assms have "nat m < 10" "nat m div 10 = 0" "nat m mod 10 = nat m" by simp_all
  with assms show ?thesis
    by (simp add: fmt_02d_def fmt_d_def decimal_small digitChars_def)
next
  case False
  with assms have "10 \<le> nat m" "nat m div 10 < 10" by simp_all
  with assms show ?thesis
    by (simp add: fmt_02d_def fmt_d_def decimal_step decimal_small)
qed

lemma getnum_two:
  assumes "a < 10" "b < 10"
  shows "getnum (digitChars ! a # digitChars ! b # rest) fixed = Some (int a * 10 + int b, rest)"
  using assms by (simp add: getnum_def isDigit_def digitChars_nth digitValue_nth
      del: digitValue.simps)

lemma daysIn_pos: "1 \<le> m \<Longrightarrow> m \<le> 12 \<Longrightarrow> 1 \<le> daysIn m y"
proof -
  assume "1 \<le> m" "m \<le> 12"
  then consider "m = 1" | "m = 2" | "m = 3" | "m = 4" | "m = 5" | "m = 6" | "m = 7" | "m = 8"
    | "m = 9" | "m = 10" | "m = 11" | "m = 12" by atomize_elim arith
  then show ?thesis by cases (simp_all add: daysIn_def daysBefore_def)
qed

lemma parse_tail:
  "getnum ''01 00:00:00'' True = Some (1, '' 00:00:00'')"
  "skipSpace '' 00:00:00'' = Some ''00:00:00''"
  "getnum ''00:00:00'' False = Some (0, '':00:00'')"
  "getnum ''00:00'' True = Some (0, '':00'')"
  "getnum ''00'' True = Some (0, [])"
  by (simp_all add: getnum_def isDigit_def digitChars_def skipSpace_def)

lemma parse_date:
  assumes "1000 \<le> y" "y \<le> 9999" "1 \<le> m" "m \<le> 12"
  shows "parseYMDHIS (Sprintf_date y m) = Some (Date y m 1 0 0 0 0)"
proof -
  define ys where "ys = decimal (nat y)"
  note a = atoi_four [OF assms(1,2), folded ys_def]
  from assms(3,4) have k: "nat m div 10 < 10" "nat m mod 10 < 10" by simp_all
  from assms(3,4) have v: "int (nat m div 10) * 10 + int (nat m mod 10) = m"
    by (simp add: zdiv_int zmod_int)
  have s: "Sprintf_date y m =
      ys @ CHR ''-'' # digitChars ! (nat m div 10) # digitChars ! (nat m mod 10) # ''-01 00:00:00''"
    using assms(1) by (simp add: Sprintf_date_def fmt_d_def fmt_02d_month [OF assms(3,4)] ys_def)
  show ?thesis
    unfolding s using a(1,2) a(3) [of "CHR ''-'' # digitChars ! (nat m div 10) #
        digitChars ! (nat m mod 10) # ''-01 00:00:00''"] assms(3,4) daysIn_pos [OF assms(3,4), of y]
    by (simp add: parseYMDHIS_def skipChar_def getnum_two [OF k] v parse_tail)
qed

lemma Parse_date:
  assumes "1000 \<le> y" "y \<le> 9999" "1 \<le> m" "m \<le> 12"
  shows "Parse_YMDHIS (Sprintf_date y m) = (Date y m 1 0 0 0 0, False)"
  by (simp add: Parse_YMDHIS_def parse_date [OF assms])

lemma CreateFromWeek_in_range:
  assumes "1 \<le> w" "w \<le> 53"
  shows "\<exists>p y'. CreateFromWeek y w = Some (p, []) \<and> y \<le> y' \<and> ISOWeek (Start p) = (y', w)"
proof -
  from CreateFromWeek_total [OF assms, of y] obtain s y' where
    c: "CreateFromWeek y w = Some (\<lparr>Start = s, End = Time (since_zero s + 7 * nsPerDay)\<rparr>, [])"
    and y: "y \<le> y'"
    and i: "\<forall>t. ISOWeek t = (y', w) \<longleftrightarrow>
      since_zero s \<le> since_zero t \<and> since_zero t < since_zero s + 7 * nsPerDay"
    by blast
  from i have "ISOWeek s = (y', w)" by (simp add: nsPerDay_def)
  with c y show ?thesis by simp
qed

lemma CreateFromWeek_Some_nil:
  assumes "1 \<le> w" "w \<le> 53" "CreateFromWeek y w = Some (p, e)"
  shows "e = []"
  using assms
  by (auto simp: CreateFromWeek_def validateRange_def bind_eq_Some_conv)

lemma CreateFromWeek_out_of_range:
  "w < 1 \<or> 53 < w \<Longrightarrow> CreateFromWeek y w = Some (zeroPeriod, [OutOfRangeError])"
  by (auto simp: CreateFromWeek_def validateRange_def)

section \<open>Instants before 1678\<close>




section \<open>The claims\<close>






















text \<open>
  Claim C5, amended. For every year \<open>y\<close> in \<open>yearInRange\<close> (290 billion years on both
  sides of year 0, within what the seconds of \<^verbatim>\<open>time.Time\<close> can hold) and every week \<open>w\<close>
  such that ISO year \<open>y\<close> has a week \<open>w\<close> (some instant has ISO year \<open>y\<close> and ISO week
  \<open>w\<close>; every week from 1 to 52 is such a week of every year), with Monday as the first
  day of the week, \<open>CreateFromWeek y w\<close> returns, with no error, the period that starts
  on the Monday of that week at 00:00:00 UTC and ends 7 days later: the instants of ISO
  week \<open>w\<close> of ISO year \<open>y\<close> are those from the start and before the end.
  \<open>CreateFromWeek 2015 1\<close> starts on 29 December 2014 and ends on 5 January 2015.
\<close>

theorem CreateFromWeek_spec:
  "(yearInRange y \<and> ISOWeek t0 = (y, w) \<longrightarrow>
      (\<exists>s. CreateFromWeek y w =
          Some (\<lparr>Start = s, End = Time (since_zero s + 7 * nsPerDay)\<rparr>, []) \<and>
        Weekday s = Monday \<and> Time_Clock s = (0, 0, 0) \<and> Time_Nanosecond s = 0 \<and>
        (\<forall>t. ISOWeek t = (y, w) \<longleftrightarrow>
          since_zero s \<le> since_zero t \<and> since_zero t < since_zero s + 7 * nsPerDay))) \<and>
   (yearInRange y \<and> 1 \<le> w \<and> w \<le> 52 \<longrightarrow> (\<exists>t. ISOWeek t = (y, w))) \<and>
   CreateFromWeek 2015 1 =
     Some (\<lparr>Start = Date 2014 12 29 0 0 0 0, End = Date 2015 1 5 0 0 0 0\<rparr>, [])"
proof (intro conjI impI)
  assume "yearInRange y \<and> ISOWeek t0 = (y, w)"
  then have "ISOWeek t0 = (y, w)" by (rule conjunct2)
  then have h: "hasWeek y w" by (rule ISOWeek_hasWeek)
  define T where "T = firstMonday y + 7 * (w - 1)"
  have "T + 7 = firstMonday y + 7 * w" by (simp add: T_def)
  with CreateFromWeek_hasWeek [OF h]
  have c: "CreateFromWeek y w = Some (\<lparr>Start = midnight T, End = midnight (T + 7)\<rparr>, [])"
    by (simp add: T_def)
  have e: "midnight (T + 7) = Time (since_zero (midnight T) + 7 * nsPerDay)"
    by (simp add: midnight_def algebra_simps)
  have m: "Weekday (midnight T) = Monday"
    unfolding T_def Weekday_midnight by (rule week_start_aligned)
  have i: "\<forall>t. ISOWeek t = (y, w) \<longleftrightarrow>
      since_zero (midnight T) \<le> since_zero t \<and>
      since_zero t < since_zero (midnight T) + 7 * nsPerDay"
    unfolding T_def using week_of_midnight [OF h] by blast
  from c e m i midnight_props(2,3) [of T]
  show "\<exists>s. CreateFromWeek y w =
          Some (\<lparr>Start = s, End = Time (since_zero s + 7 * nsPerDay)\<rparr>, []) \<and>
        Weekday s = Monday \<and> Time_Clock s = (0, 0, 0) \<and> Time_Nanosecond s = 0 \<and>
        (\<forall>t. ISOWeek t = (y, w) \<longleftrightarrow>
          since_zero s \<le> since_zero t \<and> since_zero t < since_zero s + 7 * nsPerDay)"
    by (intro exI [of _ "midnight T"]) simp
next
  assume "yearInRange y \<and> 1 \<le> w \<and> w \<le> 52"
  then have h: "hasWeek y w" by (simp add: hasWeek_52)
  have "ISOWeek (midnight (firstMonday y + 7 * (w - 1))) = (y, w)"
    unfolding ISOWeek_iff_span [OF h] by simp
  then show "\<exists>t. ISOWeek t = (y, w)" ..
next
  show "CreateFromWeek 2015 1 =
     Some (\<lparr>Start = Date 2014 12 29 0 0 0 0, End = Date 2015 1 5 0 0 0 0\<rparr>, [])"
    by (rule CreateFromWeek_2015_1)
qed

theorem CreateFromWeek_spec_witness:
  "yearInRange 2015 \<and> ISOWeek (Date 2014 12 29 0 0 0 0) = (2015, 1) \<and>
   (\<exists>s. CreateFromWeek 2015 1 =
       Some (\<lparr>Start = s, End = Time (since_zero s + 7 * nsPerDay)\<rparr>, []) \<and>
     Weekday s = Monday \<and> Time_Clock s = (0, 0, 0) \<and> Time_Nanosecond s = 0 \<and>
     (\<forall>t. ISOWeek t = (2015, 1) \<longleftrightarrow>
       since_zero s \<le> since_zero t \<and> since_zero t < since_zero s + 7 * nsPerDay)) \<and>
   (\<exists>t. ISOWeek t = (2015, 1))"
proof -
  have r: "yearInRange 2015" by (simp add: yearInRange_def)
  note t = CreateFromWeek_spec [of 2015 "Date 2014 12 29 0 0 0 0" 1]
  from t [THEN conjunct1, rule_format, OF conjI [OF r ISOWeek_2014_12_29]]
    t [THEN conjunct2, THEN conjunct1] ISOWeek_2014_12_29 r
  show ?thesis by simp
qed

text \<open>
  The claim as stated fails for week 53 of a year of 52 weeks: no instant is in ISO week
  53 of 2014, and \<open>CreateFromWeek 2014 53\<close> returns the week that starts on 28 December
  2015, week 53 of ISO year 2015.
\<close>

theorem CreateFromWeek_counterexample:
  "CreateFromWeek 2014 53 =
     Some (\<lparr>Start = Date 2015 12 28 0 0 0 0, End = Date 2016 1 4 0 0 0 0\<rparr>, []) \<and>
   ISOWeek (Date 2015 12 28 0 0 0 0) = (2015, 53) \<and>
   (\<forall>t. ISOWeek t \<noteq> (2014, 53))"
  using CreateFromWeek_2014_53 ISOWeek_2015_12_28 no_week_2014_53 by simp

text \<open>
  Claim C10, amended. For every year whose decimal rendering is not exactly four digits
  (below 1000, negative years included, or above 9999), \<open>CreateFromYear\<close>, and likewise
  \<open>CreateFromMonth\<close>, \<open>CreateFromQuarter\<close> and \<open>CreateFromSemester\<close> with an index in
  range, discards the failure of the parse and returns no error, with a period whose
  start is the zero instant and whose end is the zero instant moved by the unit of the
  constructor: 1 January of year 2 for a year, and 1 February, 1 April and 1 July of
  year 1 for a month, a quarter and a semester (365, 31, 90 and 181 days after the zero
  instant).
\<close>

theorem CreateFromYear_bad_year:
  "(year < 1000 \<or> 9999 < year \<longrightarrow>
      CreateFromYear year = (\<lparr>Start = zeroTime, End = Date 2 1 1 0 0 0 0\<rparr>, []) \<and>
      (1 \<le> month \<and> month \<le> 12 \<longrightarrow>
        CreateFromMonth year month =
          (\<lparr>Start = zeroTime, End = Date 1 2 1 0 0 0 0\<rparr>, [])) \<and>
      (1 \<le> quarter \<and> quarter \<le> 4 \<longrightarrow>
        CreateFromQuarter year quarter =
          (\<lparr>Start = zeroTime, End = Date 1 4 1 0 0 0 0\<rparr>, [])) \<and>
      (1 \<le> semester \<and> semester \<le> 2 \<longrightarrow>
        CreateFromSemester year semester =
          (\<lparr>Start = zeroTime, End = Date 1 7 1 0 0 0 0\<rparr>, []))) \<and>
   Date 2 1 1 0 0 0 0 = Time (365 * nsPerDay) \<and> Date 1 2 1 0 0 0 0 = Time (31 * nsPerDay) \<and>
   Date 1 4 1 0 0 0 0 = Time (90 * nsPerDay) \<and> Date 1 7 1 0 0 0 0 = Time (181 * nsPerDay)"
proof (intro conjI impI)
  show "Date 2 1 1 0 0 0 0 = Time (365 * nsPerDay)" "Date 1 2 1 0 0 0 0 = Time (31 * nsPerDay)"
    "Date 1 4 1 0 0 0 0 = Time (90 * nsPerDay)" "Date 1 7 1 0 0 0 0 = Time (181 * nsPerDay)"
    by (simp_all add: Date_values nsPerDay_def)
next
  assume y: "year < 1000 \<or> 9999 < year"
  note p = Parse_bad_year [OF y]
  show "CreateFromYear year = (\<lparr>Start = zeroTime, End = Date 2 1 1 0 0 0 0\<rparr>, [])"
    by (simp add: CreateFromYear_def p AddDate_zeroTime)
  show "CreateFromMonth year month = (\<lparr>Start = zeroTime, End = Date 1 2 1 0 0 0 0\<rparr>, [])"
    if "1 \<le> month \<and> month \<le> 12"
    using that by (simp add: CreateFromMonth_def validateRange_def p AddDate_zeroTime)
  show "CreateFromQuarter year quarter = (\<lparr>Start = zeroTime, End = Date 1 4 1 0 0 0 0\<rparr>, [])"
    if "1 \<le> quarter \<and> quarter \<le> 4"
    using that by (simp add: CreateFromQuarter_def validateRange_def p AddDate_zeroTime)
  show "CreateFromSemester year semester =
      (\<lparr>Start = zeroTime, End = Date 1 7 1 0 0 0 0\<rparr>, [])"
    if "1 \<le> semester \<and> semester \<le> 2"
    using that by (simp add: CreateFromSemester_def validateRange_def p AddDate_zeroTime)
qed

theorem CreateFromYear_bad_year_witness:
  "((999::int) < 1000 \<or> (9999::int) < 999) \<and>
   CreateFromYear 999 = (\<lparr>Start = zeroTime, End = Date 2 1 1 0 0 0 0\<rparr>, []) \<and>
   CreateFromMonth 999 2 = (\<lparr>Start = zeroTime, End = Date 1 2 1 0 0 0 0\<rparr>, []) \<and>
   CreateFromQuarter 999 2 = (\<lparr>Start = zeroTime, End = Date 1 4 1 0 0 0 0\<rparr>, []) \<and>
   CreateFromSemester 999 2 = (\<lparr>Start = zeroTime, End = Date 1 7 1 0 0 0 0\<rparr>, [])"
  using CreateFromYear_bad_year [of 999 2 2 2] by simp

text \<open>
  The claim as stated fails on the end of the period, which is not the zero instant.
\<close>

theorem CreateFromYear_counterexample:
  "End (fst (CreateFromYear 999)) \<noteq> zeroTime \<and> End (fst (CreateFromMonth 10000 1)) \<noteq> zeroTime"
proof -
  have "CreateFromYear 999 = (\<lparr>Start = zeroTime, End = Date 2 1 1 0 0 0 0\<rparr>, [])"
    by (simp add: CreateFromYear_def Parse_bad_year AddDate_zeroTime)
  moreover have "CreateFromMonth 10000 1 = (\<lparr>Start = zeroTime, End = Date 1 2 1 0 0 0 0\<rparr>, [])"
    by (simp add: CreateFromMonth_def validateRange_def Parse_bad_year AddDate_zeroTime)
  ultimately show ?thesis by (simp add: Date_values zeroTime_def)
qed

text \<open>
  Claim C8. Each calendar constructor fails with \<open>OutOfRangeError\<close> exactly when its
  index is outside its bound: \<open>CreateFromMonth\<close> outside 1..12, \<open>CreateFromQuarter\<close>
  outside 1..4, \<open>CreateFromSemester\<close> outside 1..2 and \<open>CreateFromWeek\<close> outside 1..53.
  The error comes in the result of the constructor, beside the zero period; within the
  bound the constructor returns no error: whenever \<open>CreateFromWeek\<close> returns, its error
  is empty exactly when the week is within the bound, and for the years in
  \<open>yearInRange\<close> it does return. An index in range is not changed: \<open>validateRange\<close> gives
  its value back, the period of a month, quarter or semester of a year of four digits
  starts on the first day of the month the index names, and the period of a week of a
  year in \<open>yearInRange\<close> starts in an ISO week of that number.
\<close>

theorem constructors_range:
  "(CreateFromMonth y m = (zeroPeriod, [OutOfRangeError]) \<longleftrightarrow> m < 1 \<or> 12 < m) \<and>
   (snd (CreateFromMonth y m) = [] \<longleftrightarrow> 1 \<le> m \<and> m \<le> 12) \<and>
   (CreateFromQuarter y q = (zeroPeriod, [OutOfRangeError]) \<longleftrightarrow> q < 1 \<or> 4 < q) \<and>
   (snd (CreateFromQuarter y q) = [] \<longleftrightarrow> 1 \<le> q \<and> q \<le> 4) \<and>
   (CreateFromSemester y s = (zeroPeriod, [OutOfRangeError]) \<longleftrightarrow> s < 1 \<or> 2 < s) \<and>
   (snd (CreateFromSemester y s) = [] \<longleftrightarrow> 1 \<le> s \<and> s \<le> 2) \<and>
   (CreateFromWeek y w = Some (zeroPeriod, [OutOfRangeError]) \<longleftrightarrow> w < 1 \<or> 53 < w) \<and>
   (CreateFromWeek y w = Some (p, e) \<longrightarrow> (e = [] \<longleftrightarrow> 1 \<le> w \<and> w \<le> 53)) \<and>
   (yearInRange y \<longrightarrow> ((\<exists>p. CreateFromWeek y w = Some (p, [])) \<longleftrightarrow> 1 \<le> w \<and> w \<le> 53)) \<and>
   validateRange v lo hi = (v, if v < lo \<or> hi < v then [OutOfRangeError] else []) \<and>
   (1000 \<le> y \<and> y \<le> 9999 \<longrightarrow>
      (1 \<le> m \<and> m \<le> 12 \<longrightarrow> Start (fst (CreateFromMonth y m)) = Date y m 1 0 0 0 0) \<and>
      (1 \<le> q \<and> q \<le> 4 \<longrightarrow>
        Start (fst (CreateFromQuarter y q)) = Date y ((q - 1) * 3 + 1) 1 0 0 0 0) \<and>
      (1 \<le> s \<and> s \<le> 2 \<longrightarrow>
        Start (fst (CreateFromSemester y s)) = Date y ((s - 1) * 6 + 1) 1 0 0 0 0)) \<and>
   (yearInRange y \<and> 1 \<le> w \<and> w \<le> 53 \<longrightarrow>
      (\<exists>p y'. CreateFromWeek y w = Some (p, []) \<and> y \<le> y' \<and> ISOWeek (Start p) = (y', w)))"
proof (intro conjI impI)
  show "CreateFromMonth y m = (zeroPeriod, [OutOfRangeError]) \<longleftrightarrow> m < 1 \<or> 12 < m"
    by (auto simp: CreateFromMonth_def validateRange_def Let_def)
  show "snd (CreateFromMonth y m) = [] \<longleftrightarrow> 1 \<le> m \<and> m \<le> 12"
    by (auto simp: CreateFromMonth_def validateRange_def Let_def)
  show "CreateFromQuarter y q = (zeroPeriod, [OutOfRangeError]) \<longleftrightarrow> q < 1 \<or> 4 < q"
    by (auto simp: CreateFromQuarter_def validateRange_def Let_def)
  show "snd (CreateFromQuarter y q) = [] \<longleftrightarrow> 1 \<le> q \<and> q \<le> 4"
    by (auto simp: CreateFromQuarter_def validateRange_def Let_def)
  show "CreateFromSemester y s = (zeroPeriod, [OutOfRangeError]) \<longleftrightarrow> s < 1 \<or> 2 < s"
    by (auto simp: CreateFromSemester_def validateRange_def Let_def)
  show "snd (CreateFromSemester y s) = [] \<longleftrightarrow> 1 \<le> s \<and> s \<le> 2"
    by (auto simp: CreateFromSemester_def validateRange_def Let_def)
  show "CreateFromWeek y w = Some (zeroPeriod, [OutOfRangeError]) \<longleftrightarrow> w < 1 \<or> 53 < w"
  proof (cases "1 \<le> w \<and> w \<le> 53")
    case True
    with CreateFromWeek_Some_nil [of w y zeroPeriod "[OutOfRangeError]"] show ?thesis by auto
  next
    case False
    with CreateFromWeek_out_of_range [of w y] show ?thesis by auto
  qed
  show "e = [] \<longleftrightarrow> 1 \<le> w \<and> w \<le> 53" if c: "CreateFromWeek y w = Some (p, e)"
  proof (cases "1 \<le> w \<and> w \<le> 53")
    case True
    with CreateFromWeek_Some_nil [of w y p e] c show ?thesis by auto
  next
    case False
    with CreateFromWeek_out_of_range [of w y] c show ?thesis by auto
  qed
  show "validateRange v lo hi = (v, if v < lo \<or> hi < v then [OutOfRangeError] else [])"
    by (simp add: validateRange_def)
next
  assume r: "yearInRange y"
  show "(\<exists>p. CreateFromWeek y w = Some (p, [])) \<longleftrightarrow> 1 \<le> w \<and> w \<le> 53"
  proof (cases "1 \<le> w \<and> w \<le> 53")
    case True
    with CreateFromWeek_in_range [of w y] show ?thesis by auto
  next
    case False
    then show ?thesis using CreateFromWeek_out_of_range [of w y] by auto
  qed
next
  show "\<exists>p y'. CreateFromWeek y w = Some (p, []) \<and> y \<le> y' \<and> ISOWeek (Start p) = (y', w)"
    if "yearInRange y \<and> 1 \<le> w \<and> w \<le> 53"
    using that CreateFromWeek_in_range [of w y] by simp
next
  assume y: "1000 \<le> y \<and> y \<le> 9999"
  show "Start (fst (CreateFromMonth y m)) = Date y m 1 0 0 0 0" if "1 \<le> m \<and> m \<le> 12"
    using that y by (simp add: CreateFromMonth_def validateRange_def Parse_date Let_def)
  show "Start (fst (CreateFromQuarter y q)) = Date y ((q - 1) * 3 + 1) 1 0 0 0 0"
    if "1 \<le> q \<and> q \<le> 4"
  proof -
    from that have "1 \<le> (q - 1) * 3 + 1" "(q - 1) * 3 + 1 \<le> 12" by simp_all
    with y that Parse_date [of y "(q - 1) * 3 + 1"] show ?thesis
      by (simp add: CreateFromQuarter_def validateRange_def Let_def)
  qed
  show "Start (fst (CreateFromSemester y s)) = Date y ((s - 1) * 6 + 1) 1 0 0 0 0"
    if "1 \<le> s \<and> s \<le> 2"
  proof -
    from that have "1 \<le> (s - 1) * 6 + 1" "(s - 1) * 6 + 1 \<le> 12" by simp_all
    with y that Parse_date [of y "(s - 1) * 6 + 1"] show ?thesis
      by (simp add: CreateFromSemester_def validateRange_def Let_def)
  qed
qed

theorem constructors_range_witness:
  "CreateFromMonth 2015 13 = (zeroPeriod, [OutOfRangeError]) \<and>
   CreateFromQuarter 2015 0 = (zeroPeriod, [OutOfRangeError]) \<and>
   CreateFromSemester 2015 3 = (zeroPeriod, [OutOfRangeError]) \<and>
   CreateFromWeek 2015 54 = Some (zeroPeriod, [OutOfRangeError]) \<and>
   snd (CreateFromMonth 2015 12) = [] \<and>
   yearInRange 2015 \<and>
   Start (fst (CreateFromMonth 2015 12)) = Date 2015 12 1 0 0 0 0 \<and>
   Start (fst (CreateFromQuarter 2015 4)) = Date 2015 10 1 0 0 0 0 \<and>
   Start (fst (CreateFromSemester 2015 2)) = Date 2015 7 1 0 0 0 0 \<and>
   (\<exists>p y'. CreateFromWeek 2015 53 = Some (p, []) \<and> 2015 \<le> y' \<and> ISOWeek (Start p) = (y', 53))"
  using constructors_range [where y = 2015 and m = 13 and q = 0 and s = 3 and w = 54]
    constructors_range [where y = 2015 and m = 12 and q = 4 and s = 2 and w = 53]
  by (simp add: yearInRange_def)

end
